theory Spec2Isabelle
  imports Main
begin

section \<open>Strings\<close>

text \<open>
  The program is Python 3, whose \<open>str\<close> is a sequence of Unicode code points. A string is
  modelled as the list of its code points, so that \<open>strip\<close>, \<open>split\<close>, the regular
  expression and the percent-encoding see the same units as the source does.
  \<open>lit\<close> writes an ASCII literal of the source.
\<close>

type_synonym ustr = "nat list"

definition lit :: "string \<Rightarrow> ustr" where
  "lit s = map of_char s"

text \<open>
  \<open>str.isspace\<close> of one code point: the characters that \<open>str.strip()\<close> without an
  argument removes at both ends.
\<close>

definition is_space :: "nat \<Rightarrow> bool" where
  "is_space c \<longleftrightarrow>
     (9 \<le> c \<and> c \<le> 13) \<or> (28 \<le> c \<and> c \<le> 32) \<or> c = 133 \<or> c = 160 \<or> c = 5760 \<or>
     (8192 \<le> c \<and> c \<le> 8202) \<or> c = 8232 \<or> c = 8233 \<or> c = 8239 \<or> c = 8287 \<or> c = 12288"

definition py_strip :: "ustr \<Rightarrow> ustr" where
  "py_strip s = rev (dropWhile is_space (rev (dropWhile is_space s)))"

text \<open>\<open>s.split(sep)\<close> for a one-character separator: empty fragments are kept.\<close>

fun py_split :: "nat \<Rightarrow> ustr \<Rightarrow> ustr list" where
  "py_split sep [] = [[]]"
| "py_split sep (c # cs) =
     (if c = sep then [] # py_split sep cs
      else (case py_split sep cs of
              [] \<Rightarrow> [[c]]
            | p # ps \<Rightarrow> (c # p) # ps))"

text \<open>\<open>sep.join(xs)\<close>.\<close>

fun py_join :: "ustr \<Rightarrow> ustr list \<Rightarrow> ustr" where
  "py_join sep [] = []"
| "py_join sep [x] = x"
| "py_join sep (x # y # ys) = x @ sep @ py_join sep (y # ys)"

section \<open>Regular expressions\<close>

text \<open>
  The fragment of Python's \<open>re\<close> syntax that \<open>EMAIL_RE\<close> uses: character classes given
  as inclusive code-point ranges, concatenation, \<open>+\<close> and \<open>{n,}\<close>. \<open>Eps\<close>, \<open>Nul\<close>,
  \<open>Alt\<close> and \<open>Star\<close> are what the derivatives of these need.
\<close>

datatype regex =
    Nul
  | Eps
  | Cls "(nat \<times> nat) list"
  | Alt regex regex
  | Seq regex regex
  | Star regex

definition Plus :: "regex \<Rightarrow> regex" where
  "Plus r = Seq r (Star r)"

fun AtLeast :: "nat \<Rightarrow> regex \<Rightarrow> regex" where
  "AtLeast 0 r = Star r"
| "AtLeast (Suc n) r = Seq r (AtLeast n r)"

definition in_cls :: "(nat \<times> nat) list \<Rightarrow> nat \<Rightarrow> bool" where
  "in_cls rs c = list_ex (\<lambda>(lo, hi). lo \<le> c \<and> c \<le> hi) rs"

fun nullable :: "regex \<Rightarrow> bool" where
  "nullable Nul = False"
| "nullable Eps = True"
| "nullable (Cls rs) = False"
| "nullable (Alt r s) = (nullable r \<or> nullable s)"
| "nullable (Seq r s) = (nullable r \<and> nullable s)"
| "nullable (Star r) = True"

fun deriv :: "nat \<Rightarrow> regex \<Rightarrow> regex" where
  "deriv c Nul = Nul"
| "deriv c Eps = Nul"
| "deriv c (Cls rs) = (if in_cls rs c then Eps else Nul)"
| "deriv c (Alt r s) = Alt (deriv c r) (deriv c s)"
| "deriv c (Seq r s) =
     (if nullable r then Alt (Seq (deriv c r) s) (deriv c s) else Seq (deriv c r) s)"
| "deriv c (Star r) = Seq (deriv c r) (Star r)"

text \<open>Whether the whole string is a word of the expression.\<close>

fun full_match :: "regex \<Rightarrow> ustr \<Rightarrow> bool" where
  "full_match r [] = nullable r"
| "full_match r (c # cs) = full_match (deriv c r) cs"

text \<open>
  \<open>re.compile("^" + r + "$").match(s)\<close>: without the MULTILINE flag \<open>$\<close> matches at the
  end of the string and also just before a newline that ends the string.
\<close>

definition re_match :: "regex \<Rightarrow> ustr \<Rightarrow> bool" where
  "re_match r s \<longleftrightarrow> full_match r s \<or> (s \<noteq> [] \<and> last s = 10 \<and> full_match r (butlast s))"

text \<open>The words of an expression, for the proofs.\<close>

inductive_set star :: "ustr set \<Rightarrow> ustr set" for A :: "ustr set" where
  star_nil: "[] \<in> star A"
| star_app: "u \<in> A \<Longrightarrow> v \<in> star A \<Longrightarrow> u @ v \<in> star A"

definition conc :: "ustr set \<Rightarrow> ustr set \<Rightarrow> ustr set" where
  "conc A B = {u @ v | u v. u \<in> A \<and> v \<in> B}"

fun lang :: "regex \<Rightarrow> ustr set" where
  "lang Nul = {}"
| "lang Eps = {[]}"
| "lang (Cls rs) = {[c] | c. in_cls rs c}"
| "lang (Alt r s) = lang r \<union> lang s"
| "lang (Seq r s) = conc (lang r) (lang s)"
| "lang (Star r) = star (lang r)"

section \<open>The email filter\<close>

text \<open>\<open>EMAIL_RE = ^[A-Za-z0-9._+-]+@[A-Za-z0-9.-]+\.[A-Za-z]{2,}$\<close>\<close>

definition cls_local :: "(nat \<times> nat) list" where
  "cls_local = [(65, 90), (97, 122), (48, 57), (46, 46), (95, 95), (43, 43), (45, 45)]"

definition cls_domain :: "(nat \<times> nat) list" where
  "cls_domain = [(65, 90), (97, 122), (48, 57), (46, 46), (45, 45)]"

definition cls_alpha :: "(nat \<times> nat) list" where
  "cls_alpha = [(65, 90), (97, 122)]"

definition EMAIL_RE :: regex where
  "EMAIL_RE =
     Seq (Plus (Cls cls_local))
      (Seq (Cls [(64, 64)])
        (Seq (Plus (Cls cls_domain))
          (Seq (Cls [(46, 46)])
            (AtLeast 2 (Cls cls_alpha)))))"

text \<open>
  \<open>iter_emails\<close> is a generator; the model returns the list of the values it yields, in
  the order it yields them. \<open>seen\<close> is the set the loop carries.
\<close>

fun iter_emails_from :: "ustr set \<Rightarrow> ustr list \<Rightarrow> ustr list" where
  "iter_emails_from seen [] = []"
| "iter_emails_from seen (raw # lines) =
     (let line = py_strip raw in
      if line = [] \<or> 32 \<in> set line \<or> 64 \<notin> set line then iter_emails_from seen lines
      else if re_match EMAIL_RE line \<and> line \<notin> seen
        then line # iter_emails_from (insert line seen) lines
      else iter_emails_from seen lines)"

definition iter_emails :: "ustr list \<Rightarrow> ustr list" where
  "iter_emails lines = iter_emails_from {} lines"

section \<open>The surname hint\<close>

text \<open>The \<open>for sep in (".", "-", "_")\<close> loop, over the separators still to try.\<close>

fun surname_loop :: "nat list \<Rightarrow> ustr \<Rightarrow> ustr" where
  "surname_loop [] local = local"
| "surname_loop (sep # seps) local =
     (if sep \<in> set local then
        (let parts = filter (\<lambda>p. p \<noteq> []) (py_split sep local) in
         if 2 \<le> length parts then last parts else surname_loop seps local)
      else surname_loop seps local)"

definition extract_surname_hint :: "ustr \<Rightarrow> ustr" where
  "extract_surname_hint local = surname_loop [46, 45, 95] local"

text \<open>
  The extractor as the specification words it: the fragments of a separator are the
  non-empty pieces of the split, the first separator with at least two fragments decides.
\<close>

definition fragments :: "nat \<Rightarrow> ustr \<Rightarrow> ustr list" where
  "fragments sep local = filter (\<lambda>p. p \<noteq> []) (py_split sep local)"

definition surname_hint_spec :: "ustr \<Rightarrow> ustr" where
  "surname_hint_spec local =
     (case find (\<lambda>sep. 2 \<le> length (fragments sep local)) [46, 45, 95] of
        Some sep \<Rightarrow> last (fragments sep local)
      | None \<Rightarrow> local)"

text \<open>
  The shape of an email, in words. Letters and digits are the ASCII ones.
  \<open>email_shape\<close> is the shape that \<open>EMAIL_RE\<close> accepts: a non-empty local-part of
  letters, digits and \<open>. _ + -\<close>, an \<open>@\<close>, a non-empty run of letters, digits, dots and
  hyphens, a dot, and a last label of at least two letters.
  \<open>stated_shape\<close> is the shape with the domain left as the specification's sentence has
  it: anything that ends in a dot followed by a label of at least two letters.
\<close>

definition is_letter :: "nat \<Rightarrow> bool" where
  "is_letter c \<longleftrightarrow> (65 \<le> c \<and> c \<le> 90) \<or> (97 \<le> c \<and> c \<le> 122)"

definition is_digit :: "nat \<Rightarrow> bool" where
  "is_digit c \<longleftrightarrow> 48 \<le> c \<and> c \<le> 57"

definition local_char :: "nat \<Rightarrow> bool" where
  "local_char c \<longleftrightarrow> is_letter c \<or> is_digit c \<or> c = 46 \<or> c = 95 \<or> c = 43 \<or> c = 45"

definition domain_char :: "nat \<Rightarrow> bool" where
  "domain_char c \<longleftrightarrow> is_letter c \<or> is_digit c \<or> c = 46 \<or> c = 45"

definition email_shape :: "ustr \<Rightarrow> bool" where
  "email_shape s \<longleftrightarrow>
     (\<exists>local dom label.
        s = local @ [64] @ dom @ [46] @ label \<and>
        local \<noteq> [] \<and> list_all local_char local \<and>
        dom \<noteq> [] \<and> list_all domain_char dom \<and>
        2 \<le> length label \<and> list_all is_letter label)"

definition stated_shape :: "ustr \<Rightarrow> bool" where
  "stated_shape s \<longleftrightarrow>
     (\<exists>local dom label.
        s = local @ [64] @ dom @ [46] @ label \<and>
        local \<noteq> [] \<and> list_all local_char local \<and>
        2 \<le> length label \<and> list_all is_letter label)"

text \<open>
  The five conditions on a line, given the strings yielded before it: with the shape
  that the regular expression accepts, and with the shape as stated.
\<close>

definition accepted :: "ustr set \<Rightarrow> ustr \<Rightarrow> bool" where
  "accepted before raw \<longleftrightarrow>
     py_strip raw \<noteq> [] \<and> 32 \<notin> set (py_strip raw) \<and> 64 \<in> set (py_strip raw) \<and>
     email_shape (py_strip raw) \<and> py_strip raw \<notin> before"

definition accepted_as_stated :: "ustr set \<Rightarrow> ustr \<Rightarrow> bool" where
  "accepted_as_stated before raw \<longleftrightarrow>
     py_strip raw \<noteq> [] \<and> 32 \<notin> set (py_strip raw) \<and> 64 \<in> set (py_strip raw) \<and>
     stated_shape (py_strip raw) \<and> py_strip raw \<notin> before"

text \<open>Keeping the first occurrence of every element, in the order of the list.\<close>

function first_occurrences :: "'a list \<Rightarrow> 'a list" where
  "first_occurrences [] = []"
| "first_occurrences (x # xs) = x # first_occurrences (removeAll x xs)"
  by pat_completeness auto
termination
  by (relation "measure length") (auto simp: less_Suc_eq_le length_removeAll_less_eq)

section \<open>The query and the links\<close>

text \<open>
  \<open>build_query\<close>: the list comprehension quotes a keyword that contains a space, the
  f-string puts the surname between double quotes (code point 34).
\<close>

definition build_query :: "ustr \<Rightarrow> ustr list \<Rightarrow> ustr" where
  "build_query surname org_keywords =
     (let org_block =
        py_join (lit '' OR '')
          (map (\<lambda>kw. if 32 \<in> set kw then [34] @ kw @ [34] else kw) org_keywords)
      in lit ''site:linkedin.com/in '' @ [34] @ surname @ [34] @ lit '' ('' @ org_block @ lit '')'')"

text \<open>The query as the specification words it: \<open><kw1> OR <kw2> OR ... OR <kwN>\<close>.\<close>

definition quoted :: "ustr \<Rightarrow> ustr" where
  "quoted s = [34] @ s @ [34]"

definition keyword_form :: "ustr \<Rightarrow> ustr" where
  "keyword_form kw = (if 32 \<in> set kw then quoted kw else kw)"

fun or_chain :: "ustr list \<Rightarrow> ustr" where
  "or_chain [] = []"
| "or_chain [kw] = keyword_form kw"
| "or_chain (kw # kws) = keyword_form kw @ lit '' OR '' @ or_chain kws"

datatype error = UnicodeEncodeError | FileNotFoundError | OSError | ValueError

text \<open>
  \<open>str.encode("utf-8", "strict")\<close>: a surrogate code point (U+D800 to U+DFFF) has no
  UTF-8 form and raises. Bytes are naturals below 256.
\<close>

definition utf8_encode_cp :: "nat \<Rightarrow> nat list option" where
  "utf8_encode_cp c =
     (if c < 128 then Some [c]
      else if c < 2048 then Some [192 + c div 64, 128 + c mod 64]
      else if c < 65536 then
        (if 55296 \<le> c \<and> c \<le> 57343 then None
         else Some [224 + c div 4096, 128 + (c div 64) mod 64, 128 + c mod 64])
      else if c < 1114112 then
        Some [240 + c div 262144, 128 + (c div 4096) mod 64, 128 + (c div 64) mod 64,
              128 + c mod 64]
      else None)"

fun utf8_encode :: "ustr \<Rightarrow> error + nat list" where
  "utf8_encode [] = Inr []"
| "utf8_encode (c # cs) =
     (case utf8_encode_cp c of
        None \<Rightarrow> Inl UnicodeEncodeError
      | Some bs \<Rightarrow> (case utf8_encode cs of Inl e \<Rightarrow> Inl e | Inr rest \<Rightarrow> Inr (bs @ rest)))"

text \<open>
  \<open>urllib.parse.quote_plus(string)\<close> with its default \<open>safe=''\<close>.
  \<open>quote_from_bytes\<close> keeps the bytes of \<open>_ALWAYS_SAFE\<close> (ASCII letters, digits and
  \<open>_.-~\<close>) and of \<open>safe\<close>, and writes every other byte as \<open>%XX\<close> in upper-case hex.
  \<open>quote_plus\<close> calls \<open>quote\<close> with no safe character when the string has no space,
  and otherwise with the space as safe character, replacing it by \<open>+\<close> afterwards.
\<close>

definition always_safe :: "nat \<Rightarrow> bool" where
  "always_safe b \<longleftrightarrow>
     (65 \<le> b \<and> b \<le> 90) \<or> (97 \<le> b \<and> b \<le> 122) \<or> (48 \<le> b \<and> b \<le> 57) \<or>
     b = 95 \<or> b = 46 \<or> b = 45 \<or> b = 126"

definition hex_digit :: "nat \<Rightarrow> nat" where
  "hex_digit n = (if n < 10 then 48 + n else 55 + n)"

definition quote_byte :: "nat list \<Rightarrow> nat \<Rightarrow> ustr" where
  "quote_byte safe b =
     (if always_safe b \<or> b \<in> set safe then [b]
      else [37, hex_digit (b div 16), hex_digit (b mod 16)])"

definition quote_from_bytes :: "nat list \<Rightarrow> nat list \<Rightarrow> ustr" where
  "quote_from_bytes bs safe = concat (map (quote_byte safe) bs)"

definition quote :: "ustr \<Rightarrow> nat list \<Rightarrow> error + ustr" where
  "quote string safe =
     (if string = [] then Inr string
      else (case utf8_encode string of
              Inl e \<Rightarrow> Inl e
            | Inr bs \<Rightarrow> Inr (quote_from_bytes bs safe)))"

definition quote_plus :: "ustr \<Rightarrow> error + ustr" where
  "quote_plus string =
     (if 32 \<notin> set string then quote string []
      else (case quote string [32] of
              Inl e \<Rightarrow> Inl e
            | Inr s \<Rightarrow> Inr (map (\<lambda>c. if c = 32 then 43 else c) s)))"

text \<open>\<open>build_search_links\<close>: the dictionary has the three keys of the source.\<close>

type_synonym dict = "ustr \<rightharpoonup> ustr"

definition build_search_links :: "ustr \<Rightarrow> error + dict" where
  "build_search_links query =
     (case quote_plus query of
        Inl e \<Rightarrow> Inl e
      | Inr q \<Rightarrow>
          Inr [lit ''Google'' \<mapsto> lit ''https://www.google.com/search?q='' @ q,
               lit ''Bing'' \<mapsto> lit ''https://www.bing.com/search?q='' @ q,
               lit ''Yandex'' \<mapsto> lit ''https://yandex.com/search/?text='' @ q])"

text \<open>
  Reading a link back, for the round trip. \<open>url_param\<close> takes the part of a URL after
  its first \<open>?\<close>, cuts it at every \<open>&\<close> and returns the text after \<open>key=\<close> of the first
  piece that starts so. \<open>unquote_plus\<close> turns \<open>+\<close> into a space, \<open>%XX\<close> into the byte
  and decodes the bytes as UTF-8; it is strict: a malformed escape or byte sequence
  gives \<open>None\<close>.
\<close>

definition after_first :: "nat \<Rightarrow> ustr \<Rightarrow> ustr option" where
  "after_first c s = (if c \<in> set s then Some (tl (dropWhile (\<lambda>x. x \<noteq> c) s)) else None)"

definition url_param :: "ustr \<Rightarrow> ustr \<Rightarrow> ustr option" where
  "url_param key url =
     (case after_first 63 url of
        None \<Rightarrow> None
      | Some qs \<Rightarrow>
          (case find (\<lambda>p. take (length key + 1) p = key @ [61]) (py_split 38 qs) of
             None \<Rightarrow> None
           | Some p \<Rightarrow> Some (drop (length key + 1) p)))"

definition hex_value :: "nat \<Rightarrow> nat option" where
  "hex_value c =
     (if 48 \<le> c \<and> c \<le> 57 then Some (c - 48)
      else if 65 \<le> c \<and> c \<le> 70 then Some (c - 55)
      else if 97 \<le> c \<and> c \<le> 102 then Some (c - 87)
      else None)"

fun unquote_to_bytes :: "ustr \<Rightarrow> nat list option" where
  "unquote_to_bytes [] = Some []"
| "unquote_to_bytes (c # cs) =
     (if c = 37 then
        (case cs of
           h1 # h2 # rest \<Rightarrow>
             (case (hex_value h1, hex_value h2) of
                (Some a, Some b) \<Rightarrow> map_option ((#) (16 * a + b)) (unquote_to_bytes rest)
              | _ \<Rightarrow> None)
         | _ \<Rightarrow> None)
      else if c < 128 then map_option ((#) c) (unquote_to_bytes cs)
      else None)"

definition continuation :: "nat \<Rightarrow> bool" where
  "continuation b \<longleftrightarrow> 128 \<le> b \<and> b < 192"

fun utf8_decode :: "nat list \<Rightarrow> ustr option" where
  "utf8_decode [] = Some []"
| "utf8_decode (b0 # bs) =
     (if b0 < 128 then map_option ((#) b0) (utf8_decode bs)
      else if 192 \<le> b0 \<and> b0 < 224 then
        (case bs of
           b1 # rest \<Rightarrow>
             (let c = (b0 - 192) * 64 + (b1 - 128) in
              if continuation b1 \<and> 128 \<le> c
              then map_option ((#) c) (utf8_decode rest) else None)
         | _ \<Rightarrow> None)
      else if 224 \<le> b0 \<and> b0 < 240 then
        (case bs of
           b1 # b2 # rest \<Rightarrow>
             (let c = (b0 - 224) * 4096 + (b1 - 128) * 64 + (b2 - 128) in
              if continuation b1 \<and> continuation b2 \<and> 2048 \<le> c \<and> \<not> (55296 \<le> c \<and> c \<le> 57343)
              then map_option ((#) c) (utf8_decode rest) else None)
         | _ \<Rightarrow> None)
      else if 240 \<le> b0 \<and> b0 < 248 then
        (case bs of
           b1 # b2 # b3 # rest \<Rightarrow>
             (let c = (b0 - 240) * 262144 + (b1 - 128) * 4096 + (b2 - 128) * 64 + (b3 - 128) in
              if continuation b1 \<and> continuation b2 \<and> continuation b3 \<and> 65536 \<le> c \<and> c < 1114112
              then map_option ((#) c) (utf8_decode rest) else None)
         | _ \<Rightarrow> None)
      else None)"

definition unquote_plus :: "ustr \<Rightarrow> ustr option" where
  "unquote_plus s =
     (case unquote_to_bytes (map (\<lambda>c. if c = 43 then 32 else c) s) of
        None \<Rightarrow> None
      | Some bs \<Rightarrow> utf8_decode bs)"

text \<open>A string that \<open>str.encode("utf-8")\<close> accepts: code points, none a surrogate.\<close>

definition encodable :: "ustr \<Rightarrow> bool" where
  "encodable s = list_all (\<lambda>c. c < 1114112 \<and> \<not> (55296 \<le> c \<and> c \<le> 57343)) s"

section \<open>The table writer\<close>

text \<open>
  \<open>csv.DictWriter\<close> with the default dialect: fields joined by a comma, a record ended
  by \<open>\r\n\<close>, a field put between double quotes when it holds a comma, a double quote, a
  carriage return or a line feed, and a double quote inside it doubled.
  \<open>dict_get r k\<close> is \<open>r.get(k, "")\<close>.
\<close>

definition dict_get :: "dict \<Rightarrow> ustr \<Rightarrow> ustr" where
  "dict_get r k = (case r k of None \<Rightarrow> [] | Some v \<Rightarrow> v)"

definition fieldnames :: "ustr list" where
  "fieldnames = [lit ''email'', lit ''surname_hint'', lit ''Google'', lit ''Bing'', lit ''Yandex'']"

definition csv_special :: "nat \<Rightarrow> bool" where
  "csv_special c \<longleftrightarrow> c = 44 \<or> c = 34 \<or> c = 13 \<or> c = 10"

definition csv_field :: "ustr \<Rightarrow> ustr" where
  "csv_field f =
     (if list_ex csv_special f
      then [34] @ concat (map (\<lambda>c. if c = 34 then [34, 34] else [c]) f) @ [34]
      else f)"

definition writerow :: "ustr list \<Rightarrow> ustr" where
  "writerow fields = py_join [44] (map csv_field fields) @ [13, 10]"

text \<open>The text that \<open>write_csv\<close> writes: an empty list of rows is replaced by one blank row.\<close>

definition blank_row :: dict where
  "blank_row = [lit ''email'' \<mapsto> [], lit ''surname_hint'' \<mapsto> [], lit ''Google'' \<mapsto> [],
                lit ''Bing'' \<mapsto> [], lit ''Yandex'' \<mapsto> []]"

definition csv_text :: "dict list \<Rightarrow> ustr" where
  "csv_text rows =
     (let rows' = (if rows = [] then [blank_row] else rows) in
      writerow fieldnames @ concat (map (\<lambda>r. writerow (map (dict_get r) fieldnames)) rows'))"

text \<open>
  The files: a path holds a text or a workbook (the cells of its sheet, row by row).
  \<open>unwritable\<close> are the paths that \<open>open(path, "w")\<close> and \<open>wb.save(path)\<close> refuse,
  \<open>openpyxl\<close> says whether \<open>from openpyxl import Workbook\<close> succeeds, \<open>stdout\<close> are the
  printed lines in the order printed. \<open>stdout_accepts\<close> are the texts that the encoder of
  the standard output accepts: with a strict UTF-8 output these are the strings without
  a surrogate, and \<open>print\<close> raises \<open>UnicodeEncodeError\<close> for any other text.
\<close>

datatype content = Text ustr | Workbook "ustr list list"

datatype message =
    XlsxMissing
  | XlsxWritten ustr
  | Processed nat
  | CsvWritten ustr

record world =
  files :: "ustr \<rightharpoonup> content"
  unwritable :: "ustr set"
  openpyxl :: bool
  stdout :: "message list"
  stdout_accepts :: "ustr \<Rightarrow> bool"

text \<open>\<open>str(n)\<close> of a natural number: its decimal digits.\<close>

function decimal :: "nat \<Rightarrow> ustr" where
  "decimal n = (if n < 10 then [48 + n] else decimal (n div 10) @ [48 + n mod 10])"
  by pat_completeness auto
termination
  by (relation "measure id") auto

declare decimal.simps [simp del]

text \<open>
  The text of each printed line, as the string literals and f-strings of \<open>main\<close> give
  it; the Cyrillic words are written by their code points.
\<close>

fun message_text :: "message \<Rightarrow> ustr" where
  "message_text XlsxMissing =
     [91, 33, 93, 32, 1053, 1077, 32, 1091, 1076, 1072, 1083, 1086, 1089, 1100, 32, 1079,
      1072, 1087, 1080, 1089, 1072, 1090, 1100, 32, 88, 76, 83, 88, 58, 32, 1084, 1086,
      1076, 1091, 1083, 1100, 32, 111, 112, 101, 110, 112, 121, 120, 108, 32, 1085, 1077,
      32, 1091, 1089, 1090, 1072, 1085, 1086, 1074, 1083, 1077, 1085, 46, 32, 1059, 1089,
      1090, 1072, 1085, 1086, 1074, 1080, 1090, 1077, 58, 32, 112, 105, 112, 32, 105, 110,
      115, 116, 97, 108, 108, 32, 111, 112, 101, 110, 112, 121, 120, 108]"
| "message_text (XlsxWritten path) = lit ''[+] XLSX: '' @ path"
| "message_text (Processed n) =
     [91, 43, 93, 32, 1054, 1073, 1088, 1072, 1073, 1086, 1090, 1072, 1085, 1086, 32, 1072,
      1076, 1088, 1077, 1089, 1086, 1074, 58, 32] @ decimal n"
| "message_text (CsvWritten path) = lit ''[+] CSV: '' @ path"

definition print :: "message \<Rightarrow> world \<Rightarrow> error + world" where
  "print m w =
     (if stdout_accepts w (message_text m) then Inr (w\<lparr>stdout := stdout w @ [m]\<rparr>)
      else Inl UnicodeEncodeError)"

text \<open>
  \<open>write_csv\<close>: the file is opened for writing with encoding UTF-8, so a text that has no
  UTF-8 form raises as well.
\<close>

definition write_csv :: "dict list \<Rightarrow> ustr \<Rightarrow> world \<Rightarrow> error + world" where
  "write_csv rows path w =
     (if path \<in> unwritable w then Inl OSError
      else (case utf8_encode (csv_text rows) of
              Inl e \<Rightarrow> Inl e
            | Inr bytes \<Rightarrow> Inr (w\<lparr>files := (files w)(path \<mapsto> Text (csv_text rows))\<rparr>)))"

text \<open>
  \<open>try_write_xlsx\<close>: only the import is inside the \<open>try\<close>; without the module nothing
  is touched and the result is \<open>False\<close>.
\<close>

definition try_write_xlsx :: "dict list \<Rightarrow> ustr \<Rightarrow> world \<Rightarrow> error + (bool \<times> world)" where
  "try_write_xlsx rows path w =
     (if \<not> openpyxl w then Inr (False, w)
      else if path \<in> unwritable w then Inl OSError
      else Inr (True,
             w\<lparr>files := (files w)(path \<mapsto>
                  Workbook (fieldnames # map (\<lambda>r. map (dict_get r) fieldnames) rows))\<rparr>))"

text \<open>
  Reading a CSV text back, for the claims about its lines: the first line is the text
  before the first line end, and a record ends at each line feed that is not between
  double quotes.
\<close>

definition first_line :: "ustr \<Rightarrow> ustr" where
  "first_line text = takeWhile (\<lambda>c. c \<noteq> 13 \<and> c \<noteq> 10) text"

fun in_quotes :: "bool \<Rightarrow> ustr \<Rightarrow> bool" where
  "in_quotes q [] = q"
| "in_quotes q (c # cs) = in_quotes (if c = 34 then \<not> q else q) cs"

fun csv_records_from :: "bool \<Rightarrow> ustr \<Rightarrow> nat" where
  "csv_records_from q [] = 0"
| "csv_records_from q (c # cs) =
     (if c = 34 then csv_records_from (\<not> q) cs
      else if c = 10 \<and> \<not> q then Suc (csv_records_from q cs)
      else csv_records_from q cs)"

definition csv_data_rows :: "ustr \<Rightarrow> nat" where
  "csv_data_rows text = csv_records_from False text - 1"

section \<open>The orchestrator\<close>

text \<open>
  \<open>DEFAULT_ORG_KEYWORDS\<close>; the third keyword is in Cyrillic letters, given by their code
  points.
\<close>

definition DEFAULT_ORG_KEYWORDS :: "ustr list" where
  "DEFAULT_ORG_KEYWORDS =
     [lit ''sk.kz'', lit ''Samruk-Kazyna'',
      [1057, 1072, 1084, 1088, 1091, 1082, 45, 1050, 1072, 1079, 1099, 1085, 1072]]"

text \<open>
  The parsed command line: \<open>args.input\<close>, \<open>args.output\<close>, \<open>args.xlsx\<close> and \<open>args.org\<close>
  (the first two are named \<open>input_path\<close> and \<open>output_path\<close> here). The last two are
  \<open>None\<close> when the option is not given.
\<close>

record args =
  input_path :: ustr
  output_path :: ustr
  xlsx :: "ustr option"
  org :: "ustr option"

text \<open>
  Lines 92 to 95 of \<open>main\<close>: \<open>if args.org:\<close> is false for a missing and for an empty
  option, and \<open>xs or org_keywords\<close> is \<open>org_keywords\<close> for an empty \<open>xs\<close>.
\<close>

definition org_keywords_of :: "ustr option \<Rightarrow> ustr list" where
  "org_keywords_of override =
     (let org_keywords = DEFAULT_ORG_KEYWORDS in
      case override of
        None \<Rightarrow> org_keywords
      | Some s \<Rightarrow>
          if s = [] then org_keywords
          else (let xs = map py_strip (filter (\<lambda>kw. py_strip kw \<noteq> []) (py_split 59 s)) in
                if xs = [] then org_keywords else xs))"

text \<open>
  The keyword list as the specification words it, with no reference to how the code
  splits and trims. \<open>split_of sep s pieces\<close>: the pieces are what lies between the
  separators of \<open>s\<close>, that is, no piece holds a separator, and writing a separator in
  front of every piece gives \<open>s\<close> with a separator in front. \<open>trimmed_of s t\<close>: \<open>t\<close> is \<open>s\<close>
  without the whitespace at its two ends. \<open>keywords_spec\<close>: the entries are the trimmed
  pieces that are not empty, and the default list stands in when there are none.
\<close>

definition split_of :: "nat \<Rightarrow> ustr \<Rightarrow> ustr list \<Rightarrow> bool" where
  "split_of sep s pieces \<longleftrightarrow>
     list_all (\<lambda>p. sep \<notin> set p) pieces \<and> concat (map ((#) sep) pieces) = sep # s"

definition trimmed_of :: "ustr \<Rightarrow> ustr \<Rightarrow> bool" where
  "trimmed_of s t \<longleftrightarrow>
     (\<exists>a b. s = a @ t @ b \<and> list_all is_space a \<and> list_all is_space b) \<and>
     (t = [] \<or> (\<not> is_space (hd t) \<and> \<not> is_space (last t)))"

definition keywords_spec :: "ustr \<Rightarrow> ustr list \<Rightarrow> bool" where
  "keywords_spec s kws \<longleftrightarrow>
     (\<exists>pieces entries.
        split_of 59 s pieces \<and> list_all2 trimmed_of pieces entries \<and>
        kws = (if filter (\<lambda>kw. kw \<noteq> []) entries = [] then DEFAULT_ORG_KEYWORDS
               else filter (\<lambda>kw. kw \<noteq> []) entries))"

text \<open>
  Reading the input: the lines of a text file, each with its line end, which the
  universal-newlines mode of \<open>open\<close> turns into a line feed. Only a text can be read.
\<close>

fun translate_newlines :: "ustr \<Rightarrow> ustr" where
  "translate_newlines [] = []"
| "translate_newlines [c] = (if c = 13 then [10] else [c])"
| "translate_newlines (c # d # cs) =
     (if c = 13 \<and> d = 10 then 10 # translate_newlines cs
      else if c = 13 then 10 # translate_newlines (d # cs)
      else c # translate_newlines (d # cs))"

fun file_lines :: "ustr \<Rightarrow> ustr list" where
  "file_lines [] = []"
| "file_lines (c # cs) =
     (if c = 10 then [10] # file_lines cs
      else (case file_lines cs of
              [] \<Rightarrow> [[c]]
            | l # ls \<Rightarrow> (c # l) # ls))"

definition read_lines :: "world \<Rightarrow> ustr \<Rightarrow> error + ustr list" where
  "read_lines w path =
     (case files w path of
        Some (Text t) \<Rightarrow> Inr (file_lines (translate_newlines t))
      | _ \<Rightarrow> Inl FileNotFoundError)"

text \<open>\<open>s.split(sep, 1)\<close>: at most one cut, at the first separator.\<close>

definition py_split1 :: "nat \<Rightarrow> ustr \<Rightarrow> ustr list" where
  "py_split1 sep s =
     (if sep \<in> set s
      then [takeWhile (\<lambda>c. c \<noteq> sep) s, tl (dropWhile (\<lambda>c. c \<noteq> sep) s)]
      else [s])"

text \<open>
  The body of the \<open>for e in emails\<close> loop. Unpacking \<open>e.split("@", 1)\<close> into two names
  raises \<open>ValueError\<close> unless the split has exactly two parts.
\<close>

definition build_row :: "ustr list \<Rightarrow> ustr \<Rightarrow> error + dict" where
  "build_row org_keywords e =
     (case py_split1 64 e of
        [local, domain] \<Rightarrow>
          (let surname = extract_surname_hint local;
               query = build_query surname org_keywords in
           case build_search_links query of
             Inl err \<Rightarrow> Inl err
           | Inr links \<Rightarrow> Inr ([lit ''email'' \<mapsto> e, lit ''surname_hint'' \<mapsto> surname] ++ links))
      | _ \<Rightarrow> Inl ValueError)"

fun build_rows :: "ustr list \<Rightarrow> ustr list \<Rightarrow> error + dict list" where
  "build_rows org_keywords [] = Inr []"
| "build_rows org_keywords (e # emails) =
     (case build_row org_keywords e of
        Inl err \<Rightarrow> Inl err
      | Inr row \<Rightarrow>
          (case build_rows org_keywords emails of
             Inl err \<Rightarrow> Inl err
           | Inr rows \<Rightarrow> Inr (row # rows)))"

text \<open>The pipeline of the end-to-end property: filter, surname hint, rows.\<close>

definition pipeline :: "ustr list \<Rightarrow> ustr list \<Rightarrow> error + dict list" where
  "pipeline org_keywords lines = build_rows org_keywords (iter_emails lines)"

definition main :: "args \<Rightarrow> world \<Rightarrow> error + world" where
  "main a w =
     (let org_keywords = org_keywords_of (org a) in
      case read_lines w (input_path a) of
        Inl err \<Rightarrow> Inl err
      | Inr lines \<Rightarrow>
          (case pipeline org_keywords lines of
             Inl err \<Rightarrow> Inl err
           | Inr rows \<Rightarrow>
               (case write_csv rows (output_path a) w of
                  Inl err \<Rightarrow> Inl err
                | Inr w1 \<Rightarrow>
                    (case (case xlsx a of
                             None \<Rightarrow> Inr w1
                           | Some path \<Rightarrow>
                               if path = [] then Inr w1
                               else (case try_write_xlsx rows path w1 of
                                       Inl err \<Rightarrow> Inl err
                                     | Inr (ok, w2) \<Rightarrow>
                                         if \<not> ok then print XlsxMissing w2
                                         else print (XlsxWritten path) w2)) of
                       Inl err \<Rightarrow> Inl err
                     | Inr w3 \<Rightarrow>
                         (case print (Processed (length rows)) w3 of
                            Inl err \<Rightarrow> Inl err
                          | Inr w4 \<Rightarrow> print (CsvWritten (output_path a)) w4)))))"

text \<open>
  What \<open>quote_plus\<close> does to one byte of the UTF-8 form, whichever of its two branches
  runs: a safe byte stays, a space becomes \<open>+\<close>, any other byte becomes \<open>%XX\<close>.
\<close>

definition plus_byte :: "nat \<Rightarrow> ustr" where
  "plus_byte b =
     (if always_safe b then [b]
      else if b = 32 then [43]
      else [37, hex_digit (b div 16), hex_digit (b mod 16)])"

text \<open>A row all of whose five fields have a UTF-8 form.\<close>

definition row_encodable :: "dict \<Rightarrow> bool" where
  "row_encodable r = list_all (\<lambda>k. encodable (dict_get r k)) fieldnames"

text \<open>
  Two runs for the examples, both with a strict UTF-8 standard output: the input file
  holds one address, the spreadsheet is asked for and the module is not installed. In
  the second run the name of the CSV file starts with the lone surrogate U+DCFF, which
  is how a byte \<open>0xFF\<close> of the command line reaches \<open>args.output\<close>.
\<close>

definition demo_args :: args where
  "demo_args = \<lparr>input_path = lit ''emails.txt'', output_path = lit ''out.csv'',
                 xlsx = Some (lit ''out.xlsx''), org = None\<rparr>"

definition demo_world :: world where
  "demo_world = \<lparr>files = [lit ''emails.txt'' \<mapsto> Text (lit ''j.smith@corp.com'' @ [10])],
                  unwritable = {}, openpyxl = False, stdout = [], stdout_accepts = encodable\<rparr>"

definition surrogate_args :: args where
  "surrogate_args = \<lparr>input_path = lit ''emails.txt'', output_path = [56575] @ lit ''.csv'',
                      xlsx = Some (lit ''out.xlsx''), org = None\<rparr>"

section \<open>The surname hint: proofs\<close>

lemma py_split_no_sep: "sep \<notin> set s \<Longrightarrow> py_split sep s = [s]"
  by (induction s) auto

lemma fragments_no_sep: "sep \<notin> set s \<Longrightarrow> length (fragments sep s) \<le> 1"
  by (simp add: fragments_def py_split_no_sep)

lemma surname_loop_find:
  "surname_loop seps local =
     (case find (\<lambda>sep. 2 \<le> length (fragments sep local)) seps of
        Some sep \<Rightarrow> last (fragments sep local)
      | None \<Rightarrow> local)"
proof (induction seps)
  case Nil
  show ?case by simp
next
  case (Cons sep seps)
  show ?case
  proof (cases "sep \<in> set local")
    case True
    then show ?thesis using Cons by (simp add: fragments_def Let_def)
  next
    case False
    then have "\<not> 2 \<le> length (fragments sep local)"
      using fragments_no_sep [of sep local] by simp
    with False show ?thesis using Cons by simp
  qed
qed

text \<open>
  C1. For every local-part, \<open>extract_surname_hint\<close> tries \<open>.\<close>, \<open>-\<close>, \<open>_\<close> in this order
  and returns the last non-empty fragment of the first separator that gives at least two
  non-empty fragments, and the local-part itself when none does. In particular
  \<open>j.smith\<close> gives \<open>smith\<close>, \<open>a_b_c\<close> gives \<open>c\<close>, \<open>single\<close> gives \<open>single\<close> and
  \<open>john.doe-extra\<close> gives \<open>doe-extra\<close>.
\<close>

theorem extract_surname_hint_spec:
  "extract_surname_hint local = surname_hint_spec local
   \<and> extract_surname_hint (lit ''j.smith'') = lit ''smith''
   \<and> extract_surname_hint (lit ''a_b_c'') = lit ''c''
   \<and> extract_surname_hint (lit ''single'') = lit ''single''
   \<and> extract_surname_hint (lit ''john.doe-extra'') = lit ''doe-extra''"
  by (simp add: extract_surname_hint_def surname_hint_spec_def surname_loop_find
      fragments_def lit_def)

section \<open>The query: proofs\<close>

lemma py_join_or_chain:
  "py_join (lit '' OR '')
     (map (\<lambda>kw. if 32 \<in> set kw then [34] @ kw @ [34] else kw) kws) = or_chain kws"
  by (induction kws rule: or_chain.induct) (simp_all add: keyword_form_def quoted_def)

text \<open>
  C6. For every surname hint and every non-empty keyword list, \<open>build_query\<close> returns
  \<open>site:linkedin.com/in "<surname>" (<kw1> OR ... OR <kwN>)\<close>: the surname between double
  quotes, the keywords joined by \<open> OR \<close>, a keyword between double quotes if and only if
  it contains a space.
\<close>

theorem build_query_form:
  "kws \<noteq> [] \<Longrightarrow>
   build_query surname kws =
     lit ''site:linkedin.com/in '' @ quoted surname @ lit '' ('' @ or_chain kws @ lit '')''"
  by (simp add: build_query_def quoted_def py_join_or_chain)

theorem build_query_form_witness:
  "[lit ''sk.kz'', lit ''Samruk Kazyna''] \<noteq> [] \<and>
   build_query (lit ''doe'') [lit ''sk.kz'', lit ''Samruk Kazyna''] =
     lit ''site:linkedin.com/in '' @ [34] @ lit ''doe'' @ [34] @ lit '' (sk.kz OR ''
       @ [34] @ lit ''Samruk Kazyna'' @ [34] @ lit '')''"
  using build_query_form [of "[lit ''sk.kz'', lit ''Samruk Kazyna'']" "lit ''doe''"]
  by (simp add: quoted_def keyword_form_def lit_def)

lemma override_filter_map:
  "map py_strip (filter (\<lambda>kw. py_strip kw \<noteq> []) xs) = filter (\<lambda>kw. kw \<noteq> []) (map py_strip xs)"
  by (induction xs) simp_all

section \<open>The regular expression matcher: proofs\<close>

lemma mem_conc: "w \<in> conc A B \<longleftrightarrow> (\<exists>u v. w = u @ v \<and> u \<in> A \<and> v \<in> B)"
  by (auto simp: conc_def)

lemma nil_in_conc: "[] \<in> conc A B \<longleftrightarrow> [] \<in> A \<and> [] \<in> B"
  by (simp add: mem_conc)

lemma nullable_lang: "nullable r \<longleftrightarrow> [] \<in> lang r"
  by (induction r) (simp_all add: nil_in_conc star_nil)

lemma cons_in_conc:
  "c # w \<in> conc A B \<longleftrightarrow>
     ([] \<in> A \<and> c # w \<in> B) \<or> (\<exists>u v. w = u @ v \<and> c # u \<in> A \<and> v \<in> B)"
  unfolding mem_conc by (auto simp: Cons_eq_append_conv)

lemma star_cons_split:
  assumes "x \<in> star A" and "x = c # w"
  shows "\<exists>u v. w = u @ v \<and> c # u \<in> A \<and> v \<in> star A"
  using assms
proof (induction rule: star.induct)
  case star_nil
  then show ?case by simp
next
  case (star_app u v)
  show ?case
  proof (cases u)
    case Nil
    with star_app show ?thesis by simp
  next
    case (Cons a u')
    with star_app.prems have "a = c" and "w = u' @ v" by simp_all
    with Cons star_app.hyps show ?thesis by blast
  qed
qed

lemma cons_in_star:
  "c # w \<in> star A \<longleftrightarrow> (\<exists>u v. w = u @ v \<and> c # u \<in> A \<and> v \<in> star A)"
proof
  assume "c # w \<in> star A"
  then show "\<exists>u v. w = u @ v \<and> c # u \<in> A \<and> v \<in> star A"
    by (rule star_cons_split) simp
next
  assume "\<exists>u v. w = u @ v \<and> c # u \<in> A \<and> v \<in> star A"
  then obtain u v where "w = u @ v" "c # u \<in> A" "v \<in> star A" by blast
  then show "c # w \<in> star A"
    using star_app [of "c # u" A v] by simp
qed

lemma lang_deriv: "w \<in> lang (deriv c r) \<longleftrightarrow> c # w \<in> lang r"
proof (induction r arbitrary: w)
  case (Seq r s)
  have left: "w \<in> conc (lang (deriv c r)) (lang s) \<longleftrightarrow>
      (\<exists>u v. w = u @ v \<and> c # u \<in> lang r \<and> v \<in> lang s)"
    by (simp add: mem_conc Seq.IH)
  show ?case
    by (auto simp: left cons_in_conc nullable_lang Seq.IH)
next
  case (Star r)
  have "w \<in> conc (lang (deriv c r)) (star (lang r)) \<longleftrightarrow>
      (\<exists>u v. w = u @ v \<and> c # u \<in> lang r \<and> v \<in> star (lang r))"
    by (simp add: mem_conc Star.IH)
  then show ?case
    by (simp add: cons_in_star)
qed auto

lemma full_match_lang: "full_match r w \<longleftrightarrow> w \<in> lang r"
  by (induction w arbitrary: r) (simp_all add: nullable_lang lang_deriv)

lemma star_singletons: "w \<in> star {[c] | c. P c} \<longleftrightarrow> list_all P w"
proof
  assume "w \<in> star {[c] | c. P c}"
  then show "list_all P w"
    by (induction rule: star.induct) auto
next
  assume "list_all P w"
  then show "w \<in> star {[c] | c. P c}"
  proof (induction w)
    case Nil
    show ?case by (rule star_nil)
  next
    case (Cons a w)
    then have "[a] \<in> {[c] | c. P c}" and "w \<in> star {[c] | c. P c}" by simp_all
    then have "[a] @ w \<in> star {[c] | c. P c}" by (rule star_app)
    then show ?case by simp
  qed
qed

lemma conc_singletons:
  "w \<in> conc {[c] | c. P c} B \<longleftrightarrow> (\<exists>c v. w = c # v \<and> P c \<and> v \<in> B)"
proof
  assume "w \<in> conc {[c] | c. P c} B"
  then obtain u v where "w = u @ v" "u \<in> {[c] | c. P c}" "v \<in> B"
    unfolding mem_conc by blast
  then show "\<exists>c v. w = c # v \<and> P c \<and> v \<in> B" by auto
next
  assume "\<exists>c v. w = c # v \<and> P c \<and> v \<in> B"
  then obtain c v where "w = [c] @ v" "P c" "v \<in> B" by auto
  then show "w \<in> conc {[c] | c. P c} B"
    unfolding mem_conc by blast
qed

lemma lang_Plus_Cls:
  "w \<in> lang (Plus (Cls rs)) \<longleftrightarrow> w \<noteq> [] \<and> list_all (in_cls rs) w"
  by (cases w) (auto simp: Plus_def conc_singletons star_singletons)

lemma lang_AtLeast2_Cls:
  "w \<in> lang (AtLeast 2 (Cls rs)) \<longleftrightarrow> 2 \<le> length w \<and> list_all (in_cls rs) w"
proof (cases w)
  case Nil
  then show ?thesis by (simp add: numeral_2_eq_2 conc_singletons)
next
  case (Cons a w')
  then show ?thesis
    by (cases w') (auto simp: numeral_2_eq_2 conc_singletons star_singletons)
qed

lemma in_cls_local: "in_cls cls_local = local_char"
  by (auto simp: in_cls_def cls_local_def local_char_def is_letter_def is_digit_def fun_eq_iff)

lemma in_cls_domain: "in_cls cls_domain = domain_char"
  by (auto simp: in_cls_def cls_domain_def domain_char_def is_letter_def is_digit_def fun_eq_iff)

lemma in_cls_alpha: "in_cls cls_alpha = is_letter"
  by (auto simp: in_cls_def cls_alpha_def is_letter_def fun_eq_iff)

lemma lang_single: "w \<in> lang (Cls [(a, a)]) \<longleftrightarrow> w = [a]"
  by (auto simp: in_cls_def)

lemma conc_Plus_Cls:
  "w \<in> conc (lang (Plus (Cls rs))) B \<longleftrightarrow>
     (\<exists>u v. w = u @ v \<and> u \<noteq> [] \<and> list_all (in_cls rs) u \<and> v \<in> B)"
  by (simp add: mem_conc lang_Plus_Cls)

lemma conc_single:
  "w \<in> conc (lang (Cls [(a, a)])) B \<longleftrightarrow> (\<exists>v. w = a # v \<and> v \<in> B)"
  by (auto simp: conc_singletons in_cls_def)

lemma lang_EMAIL_RE: "w \<in> lang EMAIL_RE \<longleftrightarrow> email_shape w"
proof -
  have "w \<in> lang EMAIL_RE \<longleftrightarrow>
    (\<exists>l d t. w = l @ 64 # d @ 46 # t \<and> l \<noteq> [] \<and> list_all local_char l \<and>
       d \<noteq> [] \<and> list_all domain_char d \<and> 2 \<le> length t \<and> list_all is_letter t)"
    unfolding EMAIL_RE_def lang.simps(5) conc_Plus_Cls conc_single lang_AtLeast2_Cls
      in_cls_local in_cls_domain in_cls_alpha
    by auto blast
  then show ?thesis
    by (simp add: email_shape_def)
qed

section \<open>The email filter: proofs\<close>

lemma email_shape_full_match: "email_shape w \<longleftrightarrow> full_match EMAIL_RE w"
  by (simp add: full_match_lang lang_EMAIL_RE)

lemma not_email_chars:
  "\<not> local_char 32" "\<not> local_char 64" "\<not> domain_char 32" "\<not> domain_char 64"
  "\<not> is_letter 32" "\<not> is_letter 64"
  by (simp_all add: local_char_def domain_char_def is_letter_def is_digit_def)

lemma list_all_not_mem: "list_all P xs \<Longrightarrow> \<not> P k \<Longrightarrow> k \<notin> set xs"
  by (auto simp: list_all_iff)

lemma email_shape_parts:
  assumes "email_shape e"
  shows "e \<noteq> []" and "32 \<notin> set e" and "64 \<in> set e"
    and "takeWhile (\<lambda>c. c \<noteq> 64) e \<noteq> []"
proof -
  from assms obtain l d t where e: "e = l @ [64] @ d @ [46] @ t"
    and l: "l \<noteq> []" "list_all local_char l"
    and d: "list_all domain_char d" and t: "list_all is_letter t"
    unfolding email_shape_def by blast
  show "e \<noteq> []" using e by simp
  show "64 \<in> set e" using e by simp
  have "32 \<notin> set l" "32 \<notin> set d" "32 \<notin> set t" "64 \<notin> set l"
    using l d t by (simp_all add: list_all_not_mem not_email_chars)
  then show "32 \<notin> set e" using e by simp
  have "takeWhile (\<lambda>c. c \<noteq> 64) e = l"
    using e \<open>64 \<notin> set l\<close> by (simp add: takeWhile_append)
  with l show "takeWhile (\<lambda>c. c \<noteq> 64) e \<noteq> []" by simp
qed

lemma py_strip_last: "py_strip s \<noteq> [] \<Longrightarrow> \<not> is_space (last (py_strip s))"
proof -
  assume ne: "py_strip s \<noteq> []"
  let ?d = "dropWhile is_space (rev (dropWhile is_space s))"
  from ne have "?d \<noteq> []" by (simp add: py_strip_def)
  then have "\<not> is_space (hd ?d)" by (rule hd_dropWhile)
  moreover have "last (py_strip s) = hd ?d"
    using \<open>?d \<noteq> []\<close> by (simp add: py_strip_def last_rev)
  ultimately show ?thesis by simp
qed

lemma re_match_strip: "re_match r (py_strip s) \<longleftrightarrow> full_match r (py_strip s)"
proof -
  have "is_space 10" by (simp add: is_space_def)
  then have "py_strip s \<noteq> [] \<Longrightarrow> last (py_strip s) \<noteq> 10"
    using py_strip_last [of s] by auto
  then show ?thesis by (auto simp: re_match_def)
qed

lemma filter_condition:
  "(\<not> (py_strip raw = [] \<or> 32 \<in> set (py_strip raw) \<or> 64 \<notin> set (py_strip raw)) \<and>
     re_match EMAIL_RE (py_strip raw) \<and> py_strip raw \<notin> seen) \<longleftrightarrow> accepted seen raw"
  by (auto simp: accepted_def re_match_strip email_shape_full_match)

lemma iter_emails_from_step:
  "iter_emails_from seen (raw # lines) =
     (if accepted seen raw
      then py_strip raw # iter_emails_from (insert (py_strip raw) seen) lines
      else iter_emails_from seen lines)"
  using filter_condition [of raw seen] by (auto simp: Let_def)

lemma iter_emails_from_append:
  "iter_emails_from seen (xs @ ys) =
     iter_emails_from seen xs @ iter_emails_from (seen \<union> set (iter_emails_from seen xs)) ys"
proof (induction xs arbitrary: seen)
  case Nil
  show ?case by simp
next
  case (Cons raw xs)
  show ?case
    unfolding append_Cons iter_emails_from_step
    by (simp add: Cons.IH Un_commute insert_commute del: iter_emails_from.simps)
qed

lemma AtLeast_2: "AtLeast 2 r = Seq r (Seq r (Star r))"
  by (simp add: numeral_2_eq_2)

lemmas filter_eval =
  iter_emails_def iter_emails_from_step accepted_def email_shape_full_match EMAIL_RE_def
  Plus_def AtLeast_2 in_cls_def cls_local_def cls_domain_def cls_alpha_def
  py_strip_def is_space_def lit_def

text \<open>
  C4, with the domain as the regular expression has it. For every input line, whatever
  lines come before and after it, the filter yields its trimmed form if and only if the
  trimmed line is not empty, has no space, has an \<open>@\<close>, has the shape of an email (a
  local-part of letters, digits and \<open>. _ + -\<close>, an \<open>@\<close>, a non-empty run of letters,
  digits, dots and hyphens, a dot and a last label of at least two letters) and was not
  yielded before; otherwise it yields nothing for that line, and what it yielded for the
  earlier lines is not changed.
\<close>

theorem iter_emails_yields:
  "iter_emails (pre @ [raw]) =
     iter_emails pre @ (if accepted (set (iter_emails pre)) raw then [py_strip raw] else [])
   \<and> iter_emails (pre @ raw # post) =
     iter_emails (pre @ [raw]) @ iter_emails_from (set (iter_emails (pre @ [raw]))) post"
proof
  show "iter_emails (pre @ [raw]) =
     iter_emails pre @ (if accepted (set (iter_emails pre)) raw then [py_strip raw] else [])"
    by (simp add: iter_emails_def iter_emails_from_append iter_emails_from_step
        del: iter_emails_from.simps(2))
  show "iter_emails (pre @ raw # post) =
     iter_emails (pre @ [raw]) @ iter_emails_from (set (iter_emails (pre @ [raw]))) post"
    using iter_emails_from_append [of "{}" "pre @ [raw]" post]
    by (simp add: iter_emails_def del: iter_emails_from.simps(2))
qed

theorem iter_emails_yields_witness:
  "iter_emails ([lit ''a@b.cc'', lit ''b c@d.ee''] @ [[32] @ lit ''c@d.ee'' @ [10]]) =
     [lit ''a@b.cc'', lit ''c@d.ee'']
   \<and> accepted {lit ''a@b.cc''} ([32] @ lit ''c@d.ee'' @ [10])
   \<and> \<not> accepted {lit ''a@b.cc''} (lit ''a@b.cc'' @ [10])
   \<and> \<not> accepted {} (lit ''b c@d.ee'')"
  using iter_emails_yields [of "[lit ''a@b.cc'', lit ''b c@d.ee'']" "[32] @ lit ''c@d.ee'' @ [10]" "[]"]
  by (simp add: filter_eval del: iter_emails_from.simps(2))

text \<open>
  C4 as stated fails in the direction from the conditions to the yield: \<open>a@b_c.dd\<close> is
  not empty, has no space, has an \<open>@\<close>, has a local-part of letters, ends in a dot and
  two letters and was not yielded before, yet its domain holds an underscore, the
  regular expression does not match and nothing is yielded.
\<close>

theorem stated_shape_not_yielded:
  "accepted_as_stated {} (lit ''a@b_c.dd'') \<and> iter_emails [lit ''a@b_c.dd''] = []"
proof -
  have strip: "py_strip (lit ''a@b_c.dd'') = lit ''a@b_c.dd''"
    by (simp add: py_strip_def is_space_def lit_def)
  have parts: "lit ''a@b_c.dd'' = lit ''a'' @ [64] @ lit ''b_c'' @ [46] @ lit ''dd''"
    by (simp add: lit_def)
  have "lit ''a'' \<noteq> [] \<and> list_all local_char (lit ''a'')
      \<and> 2 \<le> length (lit ''dd'') \<and> list_all is_letter (lit ''dd'')"
    by (simp add: lit_def local_char_def is_letter_def)
  with parts have shape: "stated_shape (lit ''a@b_c.dd'')"
    unfolding stated_shape_def
    by (intro exI [of _ "lit ''a''"] exI [of _ "lit ''b_c''"] exI [of _ "lit ''dd''"]) simp
  have plain: "lit ''a@b_c.dd'' \<noteq> [] \<and> 32 \<notin> set (lit ''a@b_c.dd'')
      \<and> 64 \<in> set (lit ''a@b_c.dd'')"
    by (simp add: lit_def)
  from shape plain have "accepted_as_stated {} (lit ''a@b_c.dd'')"
    by (simp add: accepted_as_stated_def strip)
  moreover have "iter_emails [lit ''a@b_c.dd''] = []"
    by (simp add: filter_eval del: iter_emails_from.simps(2))
  ultimately show ?thesis by (rule conjI)
qed

lemma iter_emails_from_shape:
  "e \<in> set (iter_emails_from seen lines) \<Longrightarrow> email_shape e"
proof (induction lines arbitrary: seen)
  case Nil
  then show ?case by simp
next
  case (Cons raw lines)
  then show ?case
    unfolding iter_emails_from_step
    by (auto simp: accepted_def split: if_splits)
qed

lemma surname_loop_nonempty: "local \<noteq> [] \<Longrightarrow> surname_loop seps local \<noteq> []"
proof (induction seps)
  case Nil
  then show ?case by simp
next
  case (Cons sep seps)
  let ?parts = "filter (\<lambda>p. p \<noteq> []) (py_split sep local)"
  have "last ?parts \<noteq> []" if "2 \<le> length ?parts"
  proof -
    from that have "?parts \<noteq> []" by auto
    then have "last ?parts \<in> set ?parts" by (rule last_in_set)
    then show ?thesis by simp
  qed
  with Cons show ?case by (simp add: Let_def)
qed

lemma py_split1_at:
  assumes "sep \<in> set s"
  shows "\<exists>local rest. py_split1 sep s = [local, rest] \<and> s = local @ [sep] @ rest
           \<and> local = takeWhile (\<lambda>c. c \<noteq> sep) s"
proof -
  let ?d = "dropWhile (\<lambda>c. c \<noteq> sep) s"
  from assms have ne: "?d \<noteq> []" by (simp add: dropWhile_eq_Nil_conv)
  then have "\<not> (hd ?d \<noteq> sep)" by (rule hd_dropWhile)
  with ne have "?d = sep # tl ?d" by (cases ?d) simp_all
  then have "s = takeWhile (\<lambda>c. c \<noteq> sep) s @ [sep] @ tl ?d"
    using takeWhile_dropWhile_id [of "\<lambda>c. c \<noteq> sep" s] by simp
  with assms show ?thesis by (simp add: py_split1_def)
qed

text \<open>
  C10. Every string that the filter yields contains an \<open>@\<close>, so \<open>e.split("@", 1)\<close> has
  exactly two parts, the local-part and the domain, and the surname hint computed from
  the local-part is not empty.
\<close>

theorem yielded_email_splits:
  assumes "e \<in> set (iter_emails lines)"
  shows "64 \<in> set e \<and>
    (\<exists>local domain. py_split1 64 e = [local, domain] \<and> e = local @ [64] @ domain \<and>
       extract_surname_hint local \<noteq> [])"
proof -
  from assms have shape: "email_shape e"
    unfolding iter_emails_def by (rule iter_emails_from_shape)
  then have at: "64 \<in> set e" and loc: "takeWhile (\<lambda>c. c \<noteq> 64) e \<noteq> []"
    by (rule email_shape_parts)+
  from py_split1_at [OF at] obtain local domain where
    split: "py_split1 64 e = [local, domain]" "e = local @ [64] @ domain"
    and local: "local = takeWhile (\<lambda>c. c \<noteq> 64) e" by blast
  from loc local have "local \<noteq> []" by simp
  then have "extract_surname_hint local \<noteq> []"
    unfolding extract_surname_hint_def by (rule surname_loop_nonempty)
  with at split show ?thesis by blast
qed

theorem yielded_email_splits_witness:
  "lit ''j.smith@corp.com'' \<in> set (iter_emails [lit ''j.smith@corp.com'' @ [10]])
   \<and> py_split1 64 (lit ''j.smith@corp.com'') = [lit ''j.smith'', lit ''corp.com'']
   \<and> extract_surname_hint (lit ''j.smith'') = lit ''smith''"
proof -
  have mem: "lit ''j.smith@corp.com'' \<in> set (iter_emails [lit ''j.smith@corp.com'' @ [10]])"
    by (simp add: filter_eval del: iter_emails_from.simps(2))
  from yielded_email_splits [OF mem] show ?thesis
    using mem by (simp add: py_split1_def extract_surname_hint_def lit_def)
qed

lemma removeAll_filter_conv: "removeAll x (filter P xs) = filter (\<lambda>y. P y \<and> y \<noteq> x) xs"
  by (induction xs) auto

lemma iter_emails_from_first_occurrences:
  "iter_emails_from seen lines =
     first_occurrences (filter (\<lambda>l. email_shape l \<and> l \<notin> seen) (map py_strip lines))"
proof (induction lines arbitrary: seen)
  case Nil
  show ?case by simp
next
  case (Cons raw lines)
  show ?case
  proof (cases "accepted seen raw")
    case True
    then have ok: "email_shape (py_strip raw)" "py_strip raw \<notin> seen"
      by (simp_all add: accepted_def)
    have "(\<lambda>l. email_shape l \<and> l \<notin> insert (py_strip raw) seen) =
          (\<lambda>y. (email_shape y \<and> y \<notin> seen) \<and> y \<noteq> py_strip raw)"
      by auto
    with True ok show ?thesis
      unfolding iter_emails_from_step
      by (simp add: Cons.IH removeAll_filter_conv)
  next
    case False
    then have "\<not> (email_shape (py_strip raw) \<and> py_strip raw \<notin> seen)"
      using email_shape_parts [of "py_strip raw"] by (auto simp: accepted_def)
    with False show ?thesis
      unfolding iter_emails_from_step by (auto simp: Cons.IH)
  qed
qed

lemma first_occurrences_set: "set (first_occurrences xs) = set xs"
  by (induction xs rule: first_occurrences.induct) auto

lemma first_occurrences_distinct: "distinct (first_occurrences xs)"
  by (induction xs rule: first_occurrences.induct) (auto simp: first_occurrences_set)

lemma count_list_distinct: "distinct xs \<Longrightarrow> x \<in> set xs \<Longrightarrow> count_list xs x = 1"
  by (induction xs) auto

text \<open>
  C5. For every sequence of lines and every string of email shape that occurs in it (as a
  line, up to the whitespace around it), however often, the filter yields that string
  exactly once; the yielded strings are the first occurrences of the email-shaped trimmed
  lines, in the order of the input. Strings are compared code point by code point, so
  the comparison is case-sensitive.
\<close>

theorem iter_emails_dedup:
  assumes "email_shape e" and "e \<in> set (map py_strip lines)"
  shows "count_list (iter_emails lines) e = 1
    \<and> iter_emails lines = first_occurrences (filter email_shape (map py_strip lines))"
proof -
  have eq: "iter_emails lines = first_occurrences (filter email_shape (map py_strip lines))"
    by (simp add: iter_emails_def iter_emails_from_first_occurrences)
  from assms have "e \<in> set (iter_emails lines)"
    by (simp add: eq first_occurrences_set)
  moreover have "distinct (iter_emails lines)"
    by (simp add: eq first_occurrences_distinct)
  ultimately have "count_list (iter_emails lines) e = 1"
    by (simp add: count_list_distinct)
  with eq show ?thesis by simp
qed

theorem iter_emails_dedup_witness:
  "email_shape (lit ''a@b.cc'')
   \<and> lit ''a@b.cc'' \<in> set (map py_strip [lit ''c@d.ee'', lit ''a@b.cc'' @ [10], lit ''A@b.cc'', lit ''a@b.cc''])
   \<and> count_list (iter_emails [lit ''c@d.ee'', lit ''a@b.cc'' @ [10], lit ''A@b.cc'', lit ''a@b.cc'']) (lit ''a@b.cc'') = 1
   \<and> iter_emails [lit ''c@d.ee'', lit ''a@b.cc'' @ [10], lit ''A@b.cc'', lit ''a@b.cc''] =
       [lit ''c@d.ee'', lit ''a@b.cc'', lit ''A@b.cc'']"
proof -
  have shape: "email_shape (lit ''a@b.cc'')"
    by (simp add: filter_eval)
  have occurs: "lit ''a@b.cc'' \<in> set (map py_strip [lit ''c@d.ee'', lit ''a@b.cc'' @ [10], lit ''A@b.cc'', lit ''a@b.cc''])"
    by (simp add: py_strip_def is_space_def lit_def)
  have run: "iter_emails [lit ''c@d.ee'', lit ''a@b.cc'' @ [10], lit ''A@b.cc'', lit ''a@b.cc''] =
       [lit ''c@d.ee'', lit ''a@b.cc'', lit ''A@b.cc'']"
    by (simp add: filter_eval del: iter_emails_from.simps(2))
  from iter_emails_dedup [OF shape occurs] shape occurs run show ?thesis by blast
qed

section \<open>The keyword override: proofs\<close>

lemma py_split_nonempty: "py_split sep s \<noteq> []"
  by (induction s) (auto split: list.splits)

lemma py_split_no_sep_inside: "list_all (\<lambda>p. sep \<notin> set p) (py_split sep s)"
  by (induction s) (auto split: list.splits)

lemma py_split_glue: "concat (map ((#) sep) (py_split sep s)) = sep # s"
proof (induction s)
  case Nil
  show ?case by simp
next
  case (Cons c s)
  show ?case
  proof (cases "c = sep")
    case True
    with Cons show ?thesis by simp
  next
    case False
    obtain p ps where p: "py_split sep s = p # ps"
      using py_split_nonempty [of sep s] by (cases "py_split sep s") auto
    with Cons have "p @ concat (map ((#) sep) ps) = s" by simp
    with False p show ?thesis by simp
  qed
qed

lemma py_split_split_of: "split_of sep s (py_split sep s)"
  by (simp add: split_of_def py_split_no_sep_inside py_split_glue)

lemma py_strip_trimmed_of: "trimmed_of s (py_strip s)"
proof -
  let ?d = "dropWhile is_space s"
  let ?a = "takeWhile is_space s"
  let ?b = "rev (takeWhile is_space (rev ?d))"
  have d: "?d = py_strip s @ ?b"
  proof -
    have "rev (dropWhile is_space (rev ?d)) @ ?b =
        rev (takeWhile is_space (rev ?d) @ dropWhile is_space (rev ?d))"
      by (simp only: rev_append)
    also have "\<dots> = rev (rev ?d)"
      by (simp only: takeWhile_dropWhile_id)
    also have "\<dots> = ?d"
      by (simp only: rev_rev_ident)
    finally show ?thesis
      by (simp only: py_strip_def)
  qed
  have "s = ?a @ ?d" by simp
  with d have s: "s = ?a @ py_strip s @ ?b" by simp
  have a: "list_all is_space ?a"
    by (auto simp: list_all_iff dest: set_takeWhileD)
  have b: "list_all is_space ?b"
    by (auto simp: list_all_iff dest: set_takeWhileD)
  have ends: "\<not> is_space (hd (py_strip s)) \<and> \<not> is_space (last (py_strip s))"
    if ne: "py_strip s \<noteq> []"
  proof -
    from ne d have "?d \<noteq> []" by (metis Nil_is_append_conv)
    then have "\<not> is_space (hd ?d)" by (rule hd_dropWhile)
    moreover from d ne have "hd ?d = hd (py_strip s)"
      by (metis hd_append2)
    ultimately show ?thesis using py_strip_last [OF ne] by simp
  qed
  from s a b have "\<exists>a b. s = a @ py_strip s @ b \<and> list_all is_space a \<and> list_all is_space b"
    by blast
  with ends show ?thesis
    unfolding trimmed_of_def by blast
qed

lemma list_all2_trimmed: "list_all2 trimmed_of xs (map py_strip xs)"
  by (induction xs) (simp_all add: py_strip_trimmed_of)

lemma org_keywords_of_Some:
  "org_keywords_of (Some s) =
     (if filter (\<lambda>kw. kw \<noteq> []) (map py_strip (py_split 59 s)) = [] then DEFAULT_ORG_KEYWORDS
      else filter (\<lambda>kw. kw \<noteq> []) (map py_strip (py_split 59 s)))"
proof (cases "s = []")
  case True
  then show ?thesis
    by (simp add: org_keywords_of_def py_strip_def)
next
  case False
  then show ?thesis
    by (simp add: org_keywords_of_def override_filter_map Let_def)
qed

text \<open>
  C8. For every override string, the keyword list of the pipeline is made of the pieces
  between the semicolons of the override, each without the whitespace at its ends, the
  empty ones dropped, in their order; when that leaves nothing, or no override is given,
  it is the default list, which has three elements. So \<open> a b ; ;c;\<close> gives \<open>a b\<close> and
  \<open>c\<close>, and \<open> ;; \<close> gives the default list.
\<close>

theorem org_keywords_of_spec:
  "keywords_spec s (org_keywords_of (Some s))
   \<and> org_keywords_of None = DEFAULT_ORG_KEYWORDS
   \<and> length DEFAULT_ORG_KEYWORDS = 3
   \<and> org_keywords_of (Some (lit '' a b ; ;c;'')) = [lit ''a b'', lit ''c'']
   \<and> org_keywords_of (Some (lit '' ;; '')) = DEFAULT_ORG_KEYWORDS
   \<and> org_keywords_of (Some []) = DEFAULT_ORG_KEYWORDS"
proof -
  have "keywords_spec s (org_keywords_of (Some s))"
    unfolding keywords_spec_def org_keywords_of_Some
    using py_split_split_of [of 59 s] list_all2_trimmed [of "py_split 59 s"]
    by blast
  moreover have "org_keywords_of None = DEFAULT_ORG_KEYWORDS"
    by (simp add: org_keywords_of_def)
  moreover have "length DEFAULT_ORG_KEYWORDS = 3"
    by (simp add: DEFAULT_ORG_KEYWORDS_def)
  moreover have "org_keywords_of (Some (lit '' a b ; ;c;'')) = [lit ''a b'', lit ''c'']"
    by (simp add: org_keywords_of_def py_strip_def is_space_def lit_def)
  moreover have "org_keywords_of (Some (lit '' ;; '')) = DEFAULT_ORG_KEYWORDS"
    by (simp add: org_keywords_of_def py_strip_def is_space_def lit_def)
  moreover have "org_keywords_of (Some []) = DEFAULT_ORG_KEYWORDS"
    by (simp add: org_keywords_of_def)
  ultimately show ?thesis by (intro conjI)
qed

theorem org_keywords_of_spec_witness:
  "keywords_spec (lit '' a b ; ;c;'') [lit ''a b'', lit ''c'']
   \<and> keywords_spec (lit '' ;; '') DEFAULT_ORG_KEYWORDS"
proof -
  have a: "org_keywords_of (Some (lit '' a b ; ;c;'')) = [lit ''a b'', lit ''c'']"
    by (simp add: org_keywords_of_def py_strip_def is_space_def lit_def)
  have b: "org_keywords_of (Some (lit '' ;; '')) = DEFAULT_ORG_KEYWORDS"
    by (simp add: org_keywords_of_def py_strip_def is_space_def lit_def)
  have "keywords_spec (lit '' a b ; ;c;'') (org_keywords_of (Some (lit '' a b ; ;c;'')))"
    using org_keywords_of_spec [of "lit '' a b ; ;c;''"] by (rule conjunct1)
  moreover have "keywords_spec (lit '' ;; '') (org_keywords_of (Some (lit '' ;; '')))"
    using org_keywords_of_spec [of "lit '' ;; ''"] by (rule conjunct1)
  ultimately show ?thesis
    unfolding a b by (rule conjI)
qed

section \<open>The links: proofs\<close>

lemma split3: "c div 4096 * 4096 + c div 64 mod 64 * 64 + c mod 64 = (c::nat)"
proof -
  have "c mod 4096 = 64 * (c div 64 mod 64) + c mod 64"
    using mod_mult2_eq [of c 64 64] by simp
  moreover have "c div 4096 * 4096 + c mod 4096 = c"
    by simp
  ultimately show ?thesis by simp
qed

lemma split4:
  "c div 262144 * 262144 + c div 4096 mod 64 * 4096 + c div 64 mod 64 * 64 + c mod 64 = (c::nat)"
proof -
  have "c mod 262144 = 4096 * (c div 4096 mod 64) + c mod 4096"
    using mod_mult2_eq [of c 4096 64] by simp
  moreover have "c mod 4096 = 64 * (c div 64 mod 64) + c mod 64"
    using mod_mult2_eq [of c 64 64] by simp
  moreover have "c div 262144 * 262144 + c mod 262144 = c"
    by simp
  ultimately show ?thesis by simp
qed


lemma utf8_encode_cp_bytes:
  "utf8_encode_cp c = Some bs \<Longrightarrow> list_all (\<lambda>b. b < 256) bs"
  by (auto simp: utf8_encode_cp_def split: if_splits)

lemma utf8_encode_cp_space:
  "utf8_encode_cp c = Some bs \<Longrightarrow> 32 \<in> set bs \<longleftrightarrow> c = 32"
  by (auto simp: utf8_encode_cp_def split: if_splits)

lemma utf8_decode_encode_cp:
  assumes "utf8_encode_cp c = Some bs"
  shows "utf8_decode (bs @ rest) = map_option ((#) c) (utf8_decode rest)"
proof -
  consider (one) "c < 128" | (two) "128 \<le> c" "c < 2048"
    | (three) "2048 \<le> c" "c < 65536" "\<not> (55296 \<le> c \<and> c \<le> 57343)"
    | (four) "65536 \<le> c" "c < 1114112"
    using assms by (auto simp: utf8_encode_cp_def split: if_splits)
  then show ?thesis
  proof cases
    case one
    with assms show ?thesis by (auto simp: utf8_encode_cp_def)
  next
    case two
    then have bs: "bs = [192 + c div 64, 128 + c mod 64]"
      using assms by (simp add: utf8_encode_cp_def)
    from two have d: "c div 64 < 32" by simp
    have "c div 64 * 64 + c mod 64 = c" by simp
    then show ?thesis
      using two by (simp add: bs continuation_def Let_def d)
  next
    case three
    then have bs: "bs = [224 + c div 4096, 128 + (c div 64) mod 64, 128 + c mod 64]"
      using assms by (auto simp: utf8_encode_cp_def split: if_splits)
    from three have d: "c div 4096 < 16" by simp
    have "c div 4096 * 4096 + c div 64 mod 64 * 64 + c mod 64 = c"
      by (rule split3)
    then show ?thesis
      using three by (simp add: bs continuation_def Let_def d)
  next
    case four
    then have bs: "bs = [240 + c div 262144, 128 + (c div 4096) mod 64,
        128 + (c div 64) mod 64, 128 + c mod 64]"
      using assms by (simp add: utf8_encode_cp_def)
    from four have d: "c div 262144 < 8" by simp
    have "c div 262144 * 262144 + c div 4096 mod 64 * 4096 + c div 64 mod 64 * 64
        + c mod 64 = c"
      by (rule split4)
    then show ?thesis
      using four by (simp add: bs continuation_def Let_def d)
  qed
qed

lemma utf8_encode_cp_encodable:
  "c < 1114112 \<and> \<not> (55296 \<le> c \<and> c \<le> 57343) \<Longrightarrow> \<exists>bs. utf8_encode_cp c = Some bs"
  by (auto simp: utf8_encode_cp_def)

lemma utf8_encode_encodable:
  "encodable s \<Longrightarrow>
     \<exists>bs. utf8_encode s = Inr bs \<and> list_all (\<lambda>b. b < 256) bs \<and>
       (32 \<in> set bs \<longleftrightarrow> 32 \<in> set s) \<and> utf8_decode bs = Some s"
proof (induction s)
  case Nil
  show ?case by simp
next
  case (Cons c s)
  then have "c < 1114112 \<and> \<not> (55296 \<le> c \<and> c \<le> 57343)" and "encodable s"
    by (simp_all add: encodable_def)
  then obtain cb bs where cb: "utf8_encode_cp c = Some cb"
    and bs: "utf8_encode s = Inr bs" "list_all (\<lambda>b. b < 256) bs"
      "32 \<in> set bs \<longleftrightarrow> 32 \<in> set s" "utf8_decode bs = Some s"
    using utf8_encode_cp_encodable Cons.IH by blast
  have "utf8_encode (c # s) = Inr (cb @ bs)"
    using cb bs(1) by simp
  moreover have "list_all (\<lambda>b. b < 256) (cb @ bs)"
    using utf8_encode_cp_bytes [OF cb] bs(2) by simp
  moreover have "32 \<in> set (cb @ bs) \<longleftrightarrow> 32 \<in> set (c # s)"
    using utf8_encode_cp_space [OF cb] bs(3) by auto
  moreover have "utf8_decode (cb @ bs) = Some (c # s)"
    using utf8_decode_encode_cp [OF cb, of bs] bs(4) by simp
  ultimately show ?case by blast
qed

lemma hex_digit_value: "n < 16 \<Longrightarrow> hex_value (hex_digit n) = Some n"
  by (auto simp: hex_value_def hex_digit_def)

lemma hex_digit_range: "n < 16 \<Longrightarrow> 48 \<le> hex_digit n \<and> hex_digit n \<le> 70"
  by (auto simp: hex_digit_def)

lemma quote_byte_no_safe: "b \<noteq> 32 \<Longrightarrow> quote_byte [] b = plus_byte b"
  by (simp add: quote_byte_def plus_byte_def)

lemma quote_byte_space_safe:
  assumes "b < 256"
  shows "map (\<lambda>c. if c = 32 then 43 else c) (quote_byte [32] b) = plus_byte b"
proof -
  from assms have d: "b div 16 < 16" "b mod 16 < 16" by simp_all
  have r: "hex_digit (b div 16) \<noteq> 32" "hex_digit (b mod 16) \<noteq> 32"
    using hex_digit_range [OF d(1)] hex_digit_range [OF d(2)] by auto
  have "always_safe b \<Longrightarrow> b \<noteq> 32" by (auto simp: always_safe_def)
  with r show ?thesis
    by (auto simp: quote_byte_def plus_byte_def)
qed

lemma quote_from_bytes_no_space:
  "32 \<notin> set bs \<Longrightarrow> quote_from_bytes bs [] = concat (map plus_byte bs)"
  by (induction bs) (simp_all add: quote_from_bytes_def quote_byte_no_safe)

lemma quote_from_bytes_space:
  "list_all (\<lambda>b. b < 256) bs \<Longrightarrow>
     map (\<lambda>c. if c = 32 then 43 else c) (quote_from_bytes bs [32]) = concat (map plus_byte bs)"
  by (induction bs) (simp_all add: quote_from_bytes_def quote_byte_space_safe)

lemma quote_plus_encodable:
  assumes "encodable s"
  shows "\<exists>bs. utf8_encode s = Inr bs \<and> list_all (\<lambda>b. b < 256) bs \<and>
           utf8_decode bs = Some s \<and> quote_plus s = Inr (concat (map plus_byte bs))"
proof -
  from utf8_encode_encodable [OF assms] obtain bs where
    bs: "utf8_encode s = Inr bs" "list_all (\<lambda>b. b < 256) bs"
      "32 \<in> set bs \<longleftrightarrow> 32 \<in> set s" "utf8_decode bs = Some s" by blast
  have "quote_plus s = Inr (concat (map plus_byte bs))"
  proof (cases "32 \<in> set s")
    case True
    then have "s \<noteq> []" by auto
    with True bs show ?thesis
      by (simp add: quote_plus_def quote_def quote_from_bytes_space)
  next
    case False
    show ?thesis
    proof (cases "s = []")
      case True
      with bs(1) show ?thesis by (simp add: quote_plus_def quote_def)
    next
      case nonempty: False
      with False bs show ?thesis
        by (simp add: quote_plus_def quote_def quote_from_bytes_no_space)
    qed
  qed
  with bs show ?thesis by blast
qed

lemma unquote_plus_byte:
  assumes "b < 256"
  shows "unquote_to_bytes (map (\<lambda>c. if c = 43 then 32 else c) (plus_byte b @ rest)) =
         map_option ((#) b) (unquote_to_bytes (map (\<lambda>c. if c = 43 then 32 else c) rest))"
proof -
  from assms have d: "b div 16 < 16" "b mod 16 < 16" by simp_all
  have v: "hex_value (hex_digit (b div 16)) = Some (b div 16)"
       "hex_value (hex_digit (b mod 16)) = Some (b mod 16)"
    using d by (simp_all add: hex_digit_value)
  have r: "hex_digit (b div 16) \<noteq> 43" "hex_digit (b mod 16) \<noteq> 43"
    using hex_digit_range [OF d(1)] hex_digit_range [OF d(2)] by auto
  have sum: "16 * (b div 16) + b mod 16 = b" by simp
  show ?thesis
  proof (cases "always_safe b")
    case True
    then have "b \<noteq> 37" "b \<noteq> 43" "b < 128" by (auto simp: always_safe_def)
    with True show ?thesis by (simp add: plus_byte_def)
  next
    case False
    then show ?thesis
      using v r sum by (simp add: plus_byte_def)
  qed
qed

lemma unquote_plus_bytes:
  "list_all (\<lambda>b. b < 256) bs \<Longrightarrow>
     unquote_to_bytes (map (\<lambda>c. if c = 43 then 32 else c) (concat (map plus_byte bs))) = Some bs"
proof (induction bs)
  case Nil
  show ?case by simp
next
  case (Cons b bs)
  then have "b < 256" and "list_all (\<lambda>b. b < 256) bs" by simp_all
  then show ?case
    using unquote_plus_byte [of b "concat (map plus_byte bs)"] Cons.IH
    by (simp del: map_append)
qed

lemma plus_byte_no_amp: "b < 256 \<Longrightarrow> 38 \<notin> set (plus_byte b)"
proof -
  assume "b < 256"
  then have d: "b div 16 < 16" "b mod 16 < 16" by simp_all
  have "hex_digit (b div 16) \<noteq> 38" "hex_digit (b mod 16) \<noteq> 38"
    using hex_digit_range [OF d(1)] hex_digit_range [OF d(2)] by auto
  moreover have "always_safe b \<Longrightarrow> b \<noteq> 38" by (auto simp: always_safe_def)
  ultimately show ?thesis by (auto simp: plus_byte_def)
qed

lemma quoted_no_amp: "list_all (\<lambda>b. b < 256) bs \<Longrightarrow> 38 \<notin> set (concat (map plus_byte bs))"
  by (induction bs) (simp_all add: plus_byte_no_amp)

lemma url_param_single:
  assumes "63 \<notin> set pre" and "38 \<notin> set key" and "38 \<notin> set q"
  shows "url_param key (pre @ [63] @ key @ [61] @ q) = Some q"
proof -
  have "dropWhile (\<lambda>x. x \<noteq> 63) (pre @ [63] @ key @ [61] @ q) = [63] @ key @ [61] @ q"
    using assms(1) by (auto simp: dropWhile_append3)
  then have a: "after_first 63 (pre @ [63] @ key @ [61] @ q) = Some (key @ [61] @ q)"
    by (simp add: after_first_def)
  have "38 \<notin> set (key @ 61 # q)"
    using assms(2,3) by simp
  then have p: "py_split 38 (key @ 61 # q) = [key @ 61 # q]"
    by (rule py_split_no_sep)
  show ?thesis
    unfolding url_param_def a by (simp add: p)
qed

lemma url_param_links:
  assumes "38 \<notin> set q"
  shows "url_param (lit ''q'') (lit ''https://www.google.com/search?q='' @ q) = Some q"
    and "url_param (lit ''q'') (lit ''https://www.bing.com/search?q='' @ q) = Some q"
    and "url_param (lit ''text'') (lit ''https://yandex.com/search/?text='' @ q) = Some q"
proof -
  have g: "lit ''https://www.google.com/search?q='' @ q =
      lit ''https://www.google.com/search'' @ [63] @ lit ''q'' @ [61] @ q"
    and b: "lit ''https://www.bing.com/search?q='' @ q =
      lit ''https://www.bing.com/search'' @ [63] @ lit ''q'' @ [61] @ q"
    and y: "lit ''https://yandex.com/search/?text='' @ q =
      lit ''https://yandex.com/search/'' @ [63] @ lit ''text'' @ [61] @ q"
    by (simp_all add: lit_def)
  have pre: "63 \<notin> set (lit ''https://www.google.com/search'')"
    "63 \<notin> set (lit ''https://www.bing.com/search'')"
    "63 \<notin> set (lit ''https://yandex.com/search/'')"
    and key: "38 \<notin> set (lit ''q'')" "38 \<notin> set (lit ''text'')"
    by (simp_all add: lit_def)
  show "url_param (lit ''q'') (lit ''https://www.google.com/search?q='' @ q) = Some q"
    unfolding g using pre(1) key(1) assms by (rule url_param_single)
  show "url_param (lit ''q'') (lit ''https://www.bing.com/search?q='' @ q) = Some q"
    unfolding b using pre(2) key(1) assms by (rule url_param_single)
  show "url_param (lit ''text'') (lit ''https://yandex.com/search/?text='' @ q) = Some q"
    unfolding y using pre(3) key(2) assms by (rule url_param_single)
qed

text \<open>
  C7, for the strings that have a UTF-8 form. For every query string without a surrogate
  code point, \<open>build_search_links\<close> returns the three URLs: the Google, Bing and Yandex
  search endpoints followed by the percent-encoded query (a space written \<open>+\<close>) as the
  \<open>q\<close>, \<open>q\<close> and \<open>text\<close> parameter; reading that parameter back from each URL and
  percent-decoding it gives the query again.
\<close>

theorem build_search_links_round_trip:
  assumes "encodable query"
  shows "\<exists>q. quote_plus query = Inr q \<and> build_search_links query =
           Inr [lit ''Google'' \<mapsto> lit ''https://www.google.com/search?q='' @ q,
                lit ''Bing'' \<mapsto> lit ''https://www.bing.com/search?q='' @ q,
                lit ''Yandex'' \<mapsto> lit ''https://yandex.com/search/?text='' @ q]
         \<and> url_param (lit ''q'') (lit ''https://www.google.com/search?q='' @ q) = Some q
         \<and> url_param (lit ''q'') (lit ''https://www.bing.com/search?q='' @ q) = Some q
         \<and> url_param (lit ''text'') (lit ''https://yandex.com/search/?text='' @ q) = Some q
         \<and> unquote_plus q = Some query"
proof -
  from quote_plus_encodable [OF assms] obtain bs where
    bs: "list_all (\<lambda>b. b < 256) bs" "utf8_decode bs = Some query"
      "quote_plus query = Inr (concat (map plus_byte bs))" by blast
  let ?q = "concat (map plus_byte bs)"
  have "build_search_links query =
           Inr [lit ''Google'' \<mapsto> lit ''https://www.google.com/search?q='' @ ?q,
                lit ''Bing'' \<mapsto> lit ''https://www.bing.com/search?q='' @ ?q,
                lit ''Yandex'' \<mapsto> lit ''https://yandex.com/search/?text='' @ ?q]"
    by (simp add: build_search_links_def bs(3))
  moreover have "unquote_plus ?q = Some query"
    by (simp add: unquote_plus_def unquote_plus_bytes [OF bs(1)] bs(2))
  moreover note url_param_links [OF quoted_no_amp [OF bs(1)]] bs(3)
  ultimately show ?thesis by blast
qed

theorem build_search_links_round_trip_witness:
  "encodable (lit ''a b'' @ [34, 1057])
   \<and> build_search_links (lit ''a b'' @ [34, 1057]) =
        Inr [lit ''Google'' \<mapsto> lit ''https://www.google.com/search?q=a+b%22%D0%A1'',
             lit ''Bing'' \<mapsto> lit ''https://www.bing.com/search?q=a+b%22%D0%A1'',
             lit ''Yandex'' \<mapsto> lit ''https://yandex.com/search/?text=a+b%22%D0%A1'']
   \<and> url_param (lit ''text'') (lit ''https://yandex.com/search/?text=a+b%22%D0%A1'')
        = Some (lit ''a+b%22%D0%A1'')
   \<and> unquote_plus (lit ''a+b%22%D0%A1'') = Some (lit ''a b'' @ [34, 1057])"
proof -
  have enc: "encodable (lit ''a b'' @ [34, 1057])"
    by (simp add: encodable_def lit_def)
  have links: "build_search_links (lit ''a b'' @ [34, 1057]) =
        Inr [lit ''Google'' \<mapsto> lit ''https://www.google.com/search?q=a+b%22%D0%A1'',
             lit ''Bing'' \<mapsto> lit ''https://www.bing.com/search?q=a+b%22%D0%A1'',
             lit ''Yandex'' \<mapsto> lit ''https://yandex.com/search/?text=a+b%22%D0%A1'']"
    by (simp add: build_search_links_def quote_plus_def quote_def quote_from_bytes_def
        quote_byte_def always_safe_def hex_digit_def utf8_encode_cp_def lit_def)
  from build_search_links_round_trip [OF enc] obtain q where
    q: "quote_plus (lit ''a b'' @ [34, 1057]) = Inr q"
      "url_param (lit ''text'') (lit ''https://yandex.com/search/?text='' @ q) = Some q"
      "unquote_plus q = Some (lit ''a b'' @ [34, 1057])" by blast
  note q(1)
  moreover have "quote_plus (lit ''a b'' @ [34, 1057]) = Inr (lit ''a+b%22%D0%A1'')"
    by (simp add: quote_plus_def quote_def quote_from_bytes_def
        quote_byte_def always_safe_def hex_digit_def utf8_encode_cp_def lit_def)
  ultimately have "q = lit ''a+b%22%D0%A1''" by simp
  with q(2,3) have "url_param (lit ''text'') (lit ''https://yandex.com/search/?text='' @ lit ''a+b%22%D0%A1'')
        = Some (lit ''a+b%22%D0%A1'')"
    and "unquote_plus (lit ''a+b%22%D0%A1'') = Some (lit ''a b'' @ [34, 1057])" by simp_all
  moreover have "lit ''https://yandex.com/search/?text='' @ lit ''a+b%22%D0%A1'' =
      lit ''https://yandex.com/search/?text=a+b%22%D0%A1''" by (simp add: lit_def)
  ultimately show ?thesis using enc links by simp
qed

text \<open>
  C7 as stated, for every query string, fails: a string with a lone surrogate, here
  U+DCFF, has no UTF-8 form, \<open>quote_plus\<close> raises \<open>UnicodeEncodeError\<close> and no URL is
  returned.
\<close>

theorem build_search_links_surrogate:
  "build_search_links [56575] = Inl UnicodeEncodeError"
  by (simp add: build_search_links_def quote_plus_def quote_def utf8_encode_cp_def)

section \<open>The table writer: proofs\<close>

lemma in_quotes_append: "in_quotes q (u @ v) = in_quotes (in_quotes q u) v"
  by (induction u arbitrary: q) simp_all

lemma csv_records_append:
  "csv_records_from q (u @ v) = csv_records_from q u + csv_records_from (in_quotes q u) v"
  by (induction u arbitrary: q) simp_all

lemma plain_field:
  "\<not> list_ex csv_special f \<Longrightarrow> in_quotes q f = q \<and> csv_records_from q f = 0"
  by (induction f) (simp_all add: csv_special_def)

lemma quoted_body:
  "in_quotes True (concat (map (\<lambda>c. if c = 34 then [34, 34] else [c]) f)) = True
   \<and> csv_records_from True (concat (map (\<lambda>c. if c = 34 then [34, 34] else [c]) f)) = 0"
  by (induction f) simp_all

lemma csv_field_closed:
  "in_quotes False (csv_field f) = False \<and> csv_records_from False (csv_field f) = 0"
proof (cases "list_ex csv_special f")
  case True
  then show ?thesis
    using quoted_body [of f]
    by (simp add: csv_field_def in_quotes_append csv_records_append)
next
  case False
  then show ?thesis
    using plain_field [of f False] by (simp add: csv_field_def)
qed

lemma joined_fields_closed:
  "in_quotes False (py_join [44] (map csv_field fs)) = False
   \<and> csv_records_from False (py_join [44] (map csv_field fs)) = 0"
proof (induction fs rule: induct_list012)
  case 1
  show ?case by simp
next
  case (2 f)
  show ?case by (simp add: csv_field_closed)
next
  case (3 f g fs)
  then show ?case
    by (simp add: csv_field_closed in_quotes_append csv_records_append)
qed

lemma writerow_one_record:
  "in_quotes False (writerow fs) = False \<and> csv_records_from False (writerow fs) = 1"
  by (simp add: writerow_def joined_fields_closed in_quotes_append csv_records_append)

lemma writerows_records:
  "in_quotes False (concat (map (\<lambda>r. writerow (g r)) rows)) = False
   \<and> csv_records_from False (concat (map (\<lambda>r. writerow (g r)) rows)) = length rows"
  by (induction rows) (simp_all add: writerow_one_record in_quotes_append csv_records_append)

lemma csv_text_records:
  "csv_records_from False (csv_text rows) = 1 + (if rows = [] then 1 else length rows)"
  using writerows_records [of "\<lambda>r. map (dict_get r) fieldnames"]
  by (simp add: csv_text_def Let_def writerow_one_record csv_records_append)

lemma writerow_fieldnames:
  "writerow fieldnames = lit ''email,surname_hint,Google,Bing,Yandex'' @ [13, 10]"
  by (simp add: writerow_def fieldnames_def csv_field_def csv_special_def lit_def)

lemma csv_text_first_line:
  "first_line (csv_text rows) = lit ''email,surname_hint,Google,Bing,Yandex''"
  by (simp add: csv_text_def Let_def writerow_fieldnames first_line_def lit_def)

lemma build_rows_length: "build_rows kws es = Inr rows \<Longrightarrow> length rows = length es"
  by (induction es arbitrary: rows) (auto split: sum.splits)

lemma write_csv_file:
  "write_csv rows path w = Inr w' \<Longrightarrow> files w' path = Some (Text (csv_text rows))"
  by (auto simp: write_csv_def split: if_splits sum.splits)

section \<open>The rows: proofs\<close>

lemma encodable_append [simp]: "encodable (u @ v) \<longleftrightarrow> encodable u \<and> encodable v"
  by (simp add: encodable_def)

lemma encodable_Nil [simp]: "encodable []"
  by (simp add: encodable_def)

lemma encodable_Cons [simp]:
  "encodable (c # s) \<longleftrightarrow> c < 1114112 \<and> \<not> (55296 \<le> c \<and> c \<le> 57343) \<and> encodable s"
  by (simp add: encodable_def)

lemma encodable_lit [simp]: "encodable (lit s)"
proof -
  have "of_char c < (1114112::nat) \<and> \<not> (55296 \<le> (of_char c :: nat) \<and> (of_char c :: nat) \<le> 57343)"
    for c :: char
    using nat_of_char_less_256 [of c] by linarith
  then show ?thesis
    by (simp add: encodable_def lit_def list_all_iff)
qed

lemma encodable_below_128: "list_all (\<lambda>c. c < 128) s \<Longrightarrow> encodable s"
  by (induction s) simp_all

lemma encodable_subset: "encodable s \<Longrightarrow> set t \<subseteq> set s \<Longrightarrow> encodable t"
  by (auto simp: encodable_def list_all_iff)

lemma encodable_py_join:
  "encodable sep \<Longrightarrow> list_all encodable xs \<Longrightarrow> encodable (py_join sep xs)"
  by (induction xs rule: induct_list012) simp_all

lemma encodable_build_query:
  assumes "encodable surname" and "list_all encodable kws"
  shows "encodable (build_query surname kws)"
proof -
  have "encodable [34]" by simp
  from assms(2) have "list_all encodable
      (map (\<lambda>kw. if 32 \<in> set kw then [34] @ kw @ [34] else kw) kws)"
    by (induction kws) simp_all
  then have "encodable (py_join (lit '' OR '')
      (map (\<lambda>kw. if 32 \<in> set kw then [34] @ kw @ [34] else kw) kws))"
    by (simp add: encodable_py_join)
  with assms(1) \<open>encodable [34]\<close> show ?thesis
    by (simp add: build_query_def Let_def)
qed

lemma py_split_subset: "p \<in> set (py_split sep s) \<Longrightarrow> set p \<subseteq> set s"
proof (induction s arbitrary: p)
  case Nil
  then show ?case by simp
next
  case (Cons c s)
  show ?case
  proof (cases "c = sep")
    case True
    with Cons show ?thesis by auto
  next
    case False
    then obtain q qs where q: "py_split sep s = q # qs"
      by (cases "py_split sep s") (cases s; simp split: list.splits if_splits)+
    with False Cons.prems have "p = c # q \<or> p \<in> set qs" by simp
    then show ?thesis
    proof
      assume p: "p = c # q"
      have "q \<in> set (py_split sep s)" using q by simp
      then have "set q \<subseteq> set s" by (rule Cons.IH)
      with p show ?thesis by auto
    next
      assume "p \<in> set qs"
      then have "p \<in> set (py_split sep s)" using q by simp
      then have "set p \<subseteq> set s" by (rule Cons.IH)
      then show ?thesis by auto
    qed
  qed
qed

lemma surname_loop_subset: "set (surname_loop seps local) \<subseteq> set local"
proof (induction seps)
  case Nil
  show ?case by simp
next
  case (Cons sep seps)
  let ?parts = "filter (\<lambda>p. p \<noteq> []) (py_split sep local)"
  have "set (last ?parts) \<subseteq> set local" if "2 \<le> length ?parts"
  proof -
    from that have "?parts \<noteq> []" by auto
    then have "last ?parts \<in> set ?parts" by (rule last_in_set)
    then have "last ?parts \<in> set (py_split sep local)" by simp
    then show ?thesis by (rule py_split_subset)
  qed
  with Cons show ?case by (simp add: Let_def)
qed

lemma email_shape_encodable:
  assumes "email_shape e"
  shows "encodable e"
proof -
  from assms obtain l d t where e: "e = l @ [64] @ d @ [46] @ t"
    and l: "list_all local_char l" and d: "list_all domain_char d" and t: "list_all is_letter t"
    unfolding email_shape_def by blast
  have "local_char c \<Longrightarrow> c < 128" "domain_char c \<Longrightarrow> c < 128" "is_letter c \<Longrightarrow> c < 128" for c
    by (auto simp: local_char_def domain_char_def is_letter_def is_digit_def)
  with l d t have "list_all (\<lambda>c. c < 128) l" "list_all (\<lambda>c. c < 128) d" "list_all (\<lambda>c. c < 128) t"
    by (auto simp: list_all_iff)
  then have "list_all (\<lambda>c. c < 128) e" using e by simp
  then show ?thesis by (rule encodable_below_128)
qed

lemma plus_byte_below_128: "b < 256 \<Longrightarrow> list_all (\<lambda>c. c < 128) (plus_byte b)"
proof -
  assume "b < 256"
  then have d: "b div 16 < 16" "b mod 16 < 16" by simp_all
  have "hex_digit (b div 16) < 128" "hex_digit (b mod 16) < 128"
    using hex_digit_range [OF d(1)] hex_digit_range [OF d(2)] by auto
  moreover have "always_safe b \<Longrightarrow> b < 128" by (auto simp: always_safe_def)
  ultimately show ?thesis by (auto simp: plus_byte_def)
qed

lemma quoted_encodable:
  "list_all (\<lambda>b. b < 256) bs \<Longrightarrow> encodable (concat (map plus_byte bs))"
proof -
  assume "list_all (\<lambda>b. b < 256) bs"
  then have "list_all (\<lambda>c. c < 128) (concat (map plus_byte bs))"
    by (induction bs) (simp_all add: plus_byte_below_128)
  then show ?thesis by (rule encodable_below_128)
qed

lemma build_row_ok:
  assumes "email_shape e" and "list_all encodable kws"
  shows "\<exists>row. build_row kws e = Inr row \<and> row (lit ''email'') = Some e
    \<and> row (lit ''surname_hint'') = Some (extract_surname_hint (takeWhile (\<lambda>c. c \<noteq> 64) e))
    \<and> row_encodable row"
proof -
  from assms(1) have at: "64 \<in> set e" by (rule email_shape_parts)
  from py_split1_at [OF at] obtain local domain where
    split: "py_split1 64 e = [local, domain]" and e: "e = local @ [64] @ domain"
    and local: "local = takeWhile (\<lambda>c. c \<noteq> 64) e" by blast
  let ?surname = "extract_surname_hint local"
  have enc_e: "encodable e" using assms(1) by (rule email_shape_encodable)
  have "set ?surname \<subseteq> set local"
    unfolding extract_surname_hint_def by (rule surname_loop_subset)
  then have "set ?surname \<subseteq> set e" using e by auto
  with enc_e have enc_s: "encodable ?surname" by (rule encodable_subset)
  then have "encodable (build_query ?surname kws)"
    using assms(2) by (rule encodable_build_query)
  from quote_plus_encodable [OF this] obtain bs where
    bs: "list_all (\<lambda>b. b < 256) bs"
      "quote_plus (build_query ?surname kws) = Inr (concat (map plus_byte bs))" by blast
  let ?q = "concat (map plus_byte bs)"
  define row where "row = [lit ''email'' \<mapsto> e, lit ''surname_hint'' \<mapsto> ?surname] ++
      [lit ''Google'' \<mapsto> lit ''https://www.google.com/search?q='' @ ?q,
       lit ''Bing'' \<mapsto> lit ''https://www.bing.com/search?q='' @ ?q,
       lit ''Yandex'' \<mapsto> lit ''https://yandex.com/search/?text='' @ ?q]"
  have row: "build_row kws e = Inr row"
    unfolding row_def
    by (simp add: build_row_def split build_search_links_def bs(2) Let_def)
  have keys: "lit ''email'' \<noteq> lit ''Google''" "lit ''email'' \<noteq> lit ''Bing''"
    "lit ''email'' \<noteq> lit ''Yandex''" "lit ''surname_hint'' \<noteq> lit ''Google''"
    "lit ''surname_hint'' \<noteq> lit ''Bing''" "lit ''surname_hint'' \<noteq> lit ''Yandex''"
    "lit ''email'' \<noteq> lit ''surname_hint''" "lit ''Google'' \<noteq> lit ''Bing''"
    "lit ''Google'' \<noteq> lit ''Yandex''" "lit ''Bing'' \<noteq> lit ''Yandex''"
    by (simp_all add: lit_def)
  have em: "row (lit ''email'') = Some e"
    and su: "row (lit ''surname_hint'') = Some ?surname"
    and go: "row (lit ''Google'') = Some (lit ''https://www.google.com/search?q='' @ ?q)"
    and bi: "row (lit ''Bing'') = Some (lit ''https://www.bing.com/search?q='' @ ?q)"
    and ya: "row (lit ''Yandex'') = Some (lit ''https://yandex.com/search/?text='' @ ?q)"
    unfolding row_def using keys by (simp_all add: map_add_def)
  have "encodable ?q" using bs(1) by (rule quoted_encodable)
  then have "row_encodable row"
    using enc_e enc_s
    by (simp add: row_encodable_def fieldnames_def dict_get_def em su go bi ya)
  with row em su local show ?thesis by blast
qed

lemma build_rows_ok:
  assumes "list_all email_shape es" and "list_all encodable kws"
  shows "\<exists>rows. build_rows kws es = Inr rows
    \<and> map (\<lambda>r. r (lit ''email'')) rows = map Some es
    \<and> map (\<lambda>r. r (lit ''surname_hint'')) rows =
        map (\<lambda>e. Some (extract_surname_hint (takeWhile (\<lambda>c. c \<noteq> 64) e))) es
    \<and> list_all row_encodable rows"
  using assms(1)
proof (induction es)
  case Nil
  show ?case by simp
next
  case (Cons e es)
  then have "email_shape e" and "list_all email_shape es" by simp_all
  from build_row_ok [OF this(1) assms(2)] Cons.IH [OF this(2)]
  obtain row rows where "build_row kws e = Inr row" "row (lit ''email'') = Some e"
    "row (lit ''surname_hint'') = Some (extract_surname_hint (takeWhile (\<lambda>c. c \<noteq> 64) e))"
    "row_encodable row" "build_rows kws es = Inr rows"
    "map (\<lambda>r. r (lit ''email'')) rows = map Some es"
    "map (\<lambda>r. r (lit ''surname_hint'')) rows =
        map (\<lambda>e. Some (extract_surname_hint (takeWhile (\<lambda>c. c \<noteq> 64) e))) es"
    "list_all row_encodable rows" by blast
  then show ?case by simp
qed

lemma iter_emails_shape: "list_all email_shape (iter_emails lines)"
  using iter_emails_from_shape [of _ "{}" lines]
  by (auto simp: iter_emails_def list_all_iff)

lemma pipeline_ok:
  assumes "list_all encodable kws"
  shows "\<exists>rows. pipeline kws lines = Inr rows
    \<and> map (\<lambda>r. r (lit ''email'')) rows = map Some (iter_emails lines)
    \<and> map (\<lambda>r. r (lit ''surname_hint'')) rows =
        map (\<lambda>e. Some (extract_surname_hint (takeWhile (\<lambda>c. c \<noteq> 64) e))) (iter_emails lines)
    \<and> list_all row_encodable rows"
  unfolding pipeline_def using iter_emails_shape assms by (rule build_rows_ok)

lemma encodable_csv_field: "encodable f \<Longrightarrow> encodable (csv_field f)"
proof -
  assume f: "encodable f"
  then have "encodable (concat (map (\<lambda>c. if c = 34 then [34, 34] else [c]) f))"
    by (induction f) simp_all
  with f show ?thesis by (simp add: csv_field_def)
qed

lemma encodable_writerow: "list_all encodable fs \<Longrightarrow> encodable (writerow fs)"
proof -
  assume "list_all encodable fs"
  then have "list_all encodable (map csv_field fs)"
    by (induction fs) (simp_all add: encodable_csv_field)
  then have "encodable (py_join [44] (map csv_field fs))"
    by (simp add: encodable_py_join)
  then show ?thesis by (simp add: writerow_def)
qed

lemma encodable_csv_text:
  assumes "list_all row_encodable rows"
  shows "encodable (csv_text rows)"
proof -
  have row: "encodable (writerow (map (dict_get r) fieldnames))" if "row_encodable r" for r
    using that by (simp add: row_encodable_def encodable_writerow list_all_iff)
  have blank: "row_encodable blank_row"
    by (simp add: row_encodable_def blank_row_def fieldnames_def dict_get_def lit_def)
  have head: "encodable (writerow fieldnames)"
    by (simp add: writerow_fieldnames)
  have "encodable (concat (map (\<lambda>r. writerow (map (dict_get r) fieldnames)) rs))"
    if "list_all row_encodable rs" for rs
    using that by (induction rs) (simp_all add: row)
  with assms blank head show ?thesis
    by (simp add: csv_text_def Let_def)
qed

lemma write_csv_ok:
  assumes "path \<notin> unwritable w" and "list_all row_encodable rows"
  shows "write_csv rows path w = Inr (w\<lparr>files := (files w)(path \<mapsto> Text (csv_text rows))\<rparr>)"
proof -
  from utf8_encode_encodable [OF encodable_csv_text [OF assms(2)]]
  obtain bs where "utf8_encode (csv_text rows) = Inr bs" by blast
  with assms(1) show ?thesis by (simp add: write_csv_def)
qed

text \<open>
  C3, for the lists that are not empty, and what the code does for the empty one. For
  every list of emails from which the rows are built and written, the first line of the
  CSV is \<open>email,surname_hint,Google,Bing,Yandex\<close>; the number of data rows is the
  number of emails when there is at least one email, and 1 when there is none: the
  blank row that \<open>write_csv\<close> puts in place of an empty list.
\<close>

theorem csv_header_and_rows:
  assumes "build_rows kws es = Inr rows" and "write_csv rows path w = Inr w'"
  shows "\<exists>text. files w' path = Some (Text text)
    \<and> first_line text = lit ''email,surname_hint,Google,Bing,Yandex''
    \<and> csv_data_rows text = (if es = [] then 1 else length es)"
proof -
  from assms(1) have "length rows = length es" by (rule build_rows_length)
  then have "(if rows = [] then 1 else length rows) = (if es = [] then 1 else length es)"
    by auto
  then have "csv_data_rows (csv_text rows) = (if es = [] then 1 else length es)"
    by (simp add: csv_data_rows_def csv_text_records)
  with write_csv_file [OF assms(2)] csv_text_first_line [of rows] show ?thesis by blast
qed

theorem csv_header_and_rows_witness:
  "\<exists>rows w'.
     build_rows [lit ''sk.kz''] [lit ''a@b.cc'', lit ''c.d@e.ff''] = Inr rows
     \<and> write_csv rows (lit ''out.csv'')
          \<lparr>files = Map.empty, unwritable = {}, openpyxl = False, stdout = [],
            stdout_accepts = encodable\<rparr> = Inr w'
     \<and> (\<exists>text. files w' (lit ''out.csv'') = Some (Text text)
          \<and> first_line text = lit ''email,surname_hint,Google,Bing,Yandex''
          \<and> csv_data_rows text = 2)"
proof -
  let ?w = "\<lparr>files = Map.empty, unwritable = {}, openpyxl = False, stdout = [],
            stdout_accepts = encodable\<rparr>"
  have "email_shape (lit ''a@b.cc'')" "email_shape (lit ''c.d@e.ff'')"
    by (simp_all add: filter_eval)
  then have shapes: "list_all email_shape [lit ''a@b.cc'', lit ''c.d@e.ff'']" by simp
  have kws: "list_all encodable [lit ''sk.kz'']" by simp
  from build_rows_ok [OF shapes kws] obtain rows where
    rows: "build_rows [lit ''sk.kz''] [lit ''a@b.cc'', lit ''c.d@e.ff''] = Inr rows"
    and enc: "list_all row_encodable rows"
    by (elim exE conjE) (rule that, assumption+)
  have "lit ''out.csv'' \<notin> unwritable ?w" by simp
  from write_csv_ok [OF this enc] obtain w' where
    w': "write_csv rows (lit ''out.csv'') ?w = Inr w'" by (rule that)
  have "length [lit ''a@b.cc'', lit ''c.d@e.ff''] = 2"
    "[lit ''a@b.cc'', lit ''c.d@e.ff''] \<noteq> []" by simp_all
  with csv_header_and_rows [OF rows w'] have
    "\<exists>text. files w' (lit ''out.csv'') = Some (Text text)
          \<and> first_line text = lit ''email,surname_hint,Google,Bing,Yandex''
          \<and> csv_data_rows text = 2"
    by (simp only: if_False)
  with rows w' show ?thesis
    by (intro exI [of _ rows] exI [of _ w'] conjI)
qed

text \<open>
  C3 as stated, with the empty list included, fails: for no email at all the CSV is the
  header followed by the record \<open>,,,,\<close>, so it has one data row and not zero.
\<close>

theorem csv_empty_has_data_row:
  "csv_text [] = lit ''email,surname_hint,Google,Bing,Yandex'' @ [13, 10] @ lit '',,,,'' @ [13, 10]
   \<and> csv_data_rows (csv_text []) \<noteq> length ([] :: ustr list)"
proof -
  have "csv_text [] = lit ''email,surname_hint,Google,Bing,Yandex'' @ [13, 10] @ lit '',,,,'' @ [13, 10]"
    by (simp add: csv_text_def writerow_def fieldnames_def lit_def blank_row_def dict_get_def
        csv_field_def csv_special_def)
  moreover have "csv_data_rows (csv_text []) = 1"
    by (simp add: csv_data_rows_def csv_text_records)
  ultimately show ?thesis by simp
qed

text \<open>
  C2. For the four lines \<open>john.doe@corp.com\<close>, \<open>john.doe@corp.com\<close>, \<open>bad email@x\<close>,
  \<open>a_b@corp.com\<close> the pipeline (filter, surname hint, row building, with any keywords
  that have a UTF-8 form) gives exactly two rows, for \<open>john.doe@corp.com\<close> and
  \<open>a_b@corp.com\<close> in this order, with the surname hints \<open>doe\<close> and \<open>b\<close>.
\<close>

theorem pipeline_example:
  assumes "list_all encodable kws"
  shows "\<exists>rows. pipeline kws
           [lit ''john.doe@corp.com'', lit ''john.doe@corp.com'', lit ''bad email@x'',
            lit ''a_b@corp.com''] = Inr rows
    \<and> length rows = 2
    \<and> map (\<lambda>r. r (lit ''email'')) rows =
         [Some (lit ''john.doe@corp.com''), Some (lit ''a_b@corp.com'')]
    \<and> map (\<lambda>r. r (lit ''surname_hint'')) rows = [Some (lit ''doe''), Some (lit ''b'')]"
proof -
  let ?lines = "[lit ''john.doe@corp.com'', lit ''john.doe@corp.com'', lit ''bad email@x'',
            lit ''a_b@corp.com'']"
  have emails: "iter_emails ?lines = [lit ''john.doe@corp.com'', lit ''a_b@corp.com'']"
    by (simp add: filter_eval del: iter_emails_from.simps(2))
  have hints:
    "extract_surname_hint (takeWhile (\<lambda>c. c \<noteq> 64) (lit ''john.doe@corp.com'')) = lit ''doe''"
    "extract_surname_hint (takeWhile (\<lambda>c. c \<noteq> 64) (lit ''a_b@corp.com'')) = lit ''b''"
    by (simp_all add: extract_surname_hint_def lit_def)
  from pipeline_ok [OF assms, of ?lines] obtain rows where
    rows: "pipeline kws ?lines = Inr rows"
      "map (\<lambda>r. r (lit ''email'')) rows = map Some (iter_emails ?lines)"
      "map (\<lambda>r. r (lit ''surname_hint'')) rows =
        map (\<lambda>e. Some (extract_surname_hint (takeWhile (\<lambda>c. c \<noteq> 64) e))) (iter_emails ?lines)"
    by (elim exE conjE) (rule that, assumption+)
  from rows(2) have "length rows = length (map Some (iter_emails ?lines))"
    by (metis length_map)
  then have len: "length rows = 2" by (simp add: emails)
  from rows(2) have em: "map (\<lambda>r. r (lit ''email'')) rows =
         [Some (lit ''john.doe@corp.com''), Some (lit ''a_b@corp.com'')]"
    by (simp add: emails)
  from rows(3) have su: "map (\<lambda>r. r (lit ''surname_hint'')) rows = [Some (lit ''doe''), Some (lit ''b'')]"
    by (simp add: emails hints)
  from rows(1) len em su show ?thesis
    by (intro exI [of _ rows] conjI)
qed

theorem pipeline_example_witness:
  "list_all encodable DEFAULT_ORG_KEYWORDS
   \<and> (\<exists>rows. pipeline DEFAULT_ORG_KEYWORDS
           [lit ''john.doe@corp.com'', lit ''john.doe@corp.com'', lit ''bad email@x'',
            lit ''a_b@corp.com''] = Inr rows
    \<and> length rows = 2
    \<and> map (\<lambda>r. r (lit ''email'')) rows =
         [Some (lit ''john.doe@corp.com''), Some (lit ''a_b@corp.com'')]
    \<and> map (\<lambda>r. r (lit ''surname_hint'')) rows = [Some (lit ''doe''), Some (lit ''b'')])"
proof -
  have enc: "list_all encodable DEFAULT_ORG_KEYWORDS"
    by (simp add: DEFAULT_ORG_KEYWORDS_def)
  from enc pipeline_example [OF enc] show ?thesis by (rule conjI)
qed

section \<open>The orchestrator: proofs\<close>

lemma encodable_decimal: "encodable (decimal n)"
proof (induction n rule: decimal.induct)
  case (1 n)
  show ?case
  proof (cases "n < 10")
    case True
    then show ?thesis by (subst decimal.simps) simp
  next
    case False
    have "n mod 10 < 10" by simp
    then have "48 + n mod 10 < 1114112 \<and> \<not> (55296 \<le> 48 + n mod 10 \<and> 48 + n mod 10 \<le> 57343)"
      by linarith
    with False 1 show ?thesis by (subst decimal.simps) simp
  qed
qed

lemma encodable_fixed_messages:
  "encodable (message_text XlsxMissing)" "encodable (message_text (Processed n))"
  by (simp_all add: encodable_decimal)

lemma print_ok:
  "stdout_accepts w (message_text m) \<Longrightarrow> print m w = Inr (w\<lparr>stdout := stdout w @ [m]\<rparr>)"
  by (simp add: print_def)

lemma print_refused:
  "\<not> stdout_accepts w (message_text m) \<Longrightarrow> print m w = Inl UnicodeEncodeError"
  by (simp add: print_def)

lemma main_xlsx_missing:
  assumes "files w (input_path a) = Some (Text t)"
    and "list_all encodable (org_keywords_of (org a))"
    and "output_path a \<notin> unwritable w"
    and "xlsx a = Some p" and "p \<noteq> []"
    and "\<not> openpyxl w"
  shows "\<exists>rows.
      pipeline (org_keywords_of (org a)) (file_lines (translate_newlines t)) = Inr rows
    \<and> length rows = length (iter_emails (file_lines (translate_newlines t)))
    \<and> try_write_xlsx rows p (w\<lparr>files := (files w)(output_path a \<mapsto> Text (csv_text rows))\<rparr>) =
        Inr (False, w\<lparr>files := (files w)(output_path a \<mapsto> Text (csv_text rows))\<rparr>)
    \<and> main a w =
        (case print XlsxMissing (w\<lparr>files := (files w)(output_path a \<mapsto> Text (csv_text rows))\<rparr>) of
           Inl err \<Rightarrow> Inl err
         | Inr w3 \<Rightarrow>
             (case print (Processed (length rows)) w3 of
                Inl err \<Rightarrow> Inl err
              | Inr w4 \<Rightarrow> print (CsvWritten (output_path a)) w4))"
proof -
  let ?kws = "org_keywords_of (org a)"
  let ?lines = "file_lines (translate_newlines t)"
  from pipeline_ok [OF assms(2), of ?lines] obtain rows where
    rows: "pipeline ?kws ?lines = Inr rows"
    and emails: "map (\<lambda>r. r (lit ''email'')) rows = map Some (iter_emails ?lines)"
    and enc: "list_all row_encodable rows"
    by (elim exE conjE) (rule that, assumption+)
  from emails have "length (map (\<lambda>r. r (lit ''email'')) rows) = length (map Some (iter_emails ?lines))"
    by (rule arg_cong)
  then have len: "length rows = length (iter_emails ?lines)" by simp
  let ?w1 = "w\<lparr>files := (files w)(output_path a \<mapsto> Text (csv_text rows))\<rparr>"
  have read: "read_lines w (input_path a) = Inr ?lines"
    using assms(1) by (simp add: read_lines_def)
  have csv: "write_csv rows (output_path a) w = Inr ?w1"
    using assms(3) enc by (rule write_csv_ok)
  have x: "try_write_xlsx rows p ?w1 = Inr (False, ?w1)"
    using assms(6) by (simp add: try_write_xlsx_def)
  have "main a w =
        (case print XlsxMissing ?w1 of
           Inl err \<Rightarrow> Inl err
         | Inr w3 \<Rightarrow>
             (case print (Processed (length rows)) w3 of
                Inl err \<Rightarrow> Inl err
              | Inr w4 \<Rightarrow> print (CsvWritten (output_path a)) w4))"
    unfolding main_def Let_def
    by (simp add: read rows csv x assms(4,5))
  with rows len x show ?thesis
    by (intro exI [of _ rows] conjI)
qed

text \<open>
  C9, for a standard output that can encode what is printed. When the spreadsheet is
  asked for and \<open>openpyxl\<close> is missing (the input being readable, the keywords having a
  UTF-8 form and the CSV path writable, so that the CSV was written beforehand),
  \<open>try_write_xlsx\<close> returns \<open>False\<close> and raises nothing and leaves the files as
  \<open>write_csv\<close> left them; and when the standard output accepts the advisory line and
  the two summary lines, \<open>main\<close> runs to its end, prints the advisory line once,
  followed by the two summary lines, and the CSV holds the complete table.
\<close>

theorem xlsx_missing_recovered:
  assumes "files w (input_path a) = Some (Text t)"
    and "list_all encodable (org_keywords_of (org a))"
    and "output_path a \<notin> unwritable w"
    and "xlsx a = Some p" and "p \<noteq> []"
    and "\<not> openpyxl w"
    and "stdout_accepts w (message_text XlsxMissing)"
    and "stdout_accepts w
           (message_text (Processed (length (iter_emails (file_lines (translate_newlines t))))))"
    and "stdout_accepts w (message_text (CsvWritten (output_path a)))"
  shows "\<exists>rows.
      pipeline (org_keywords_of (org a)) (file_lines (translate_newlines t)) = Inr rows
    \<and> try_write_xlsx rows p (w\<lparr>files := (files w)(output_path a \<mapsto> Text (csv_text rows))\<rparr>) =
        Inr (False, w\<lparr>files := (files w)(output_path a \<mapsto> Text (csv_text rows))\<rparr>)
    \<and> main a w =
        Inr (w\<lparr>files := (files w)(output_path a \<mapsto> Text (csv_text rows)),
               stdout := stdout w @ [XlsxMissing, Processed (length rows),
                                      CsvWritten (output_path a)]\<rparr>)"
proof -
  from main_xlsx_missing [OF assms(1-6)] obtain rows where
    rows: "pipeline (org_keywords_of (org a)) (file_lines (translate_newlines t)) = Inr rows"
    and len: "length rows = length (iter_emails (file_lines (translate_newlines t)))"
    and x: "try_write_xlsx rows p (w\<lparr>files := (files w)(output_path a \<mapsto> Text (csv_text rows))\<rparr>) =
        Inr (False, w\<lparr>files := (files w)(output_path a \<mapsto> Text (csv_text rows))\<rparr>)"
    and run: "main a w =
        (case print XlsxMissing (w\<lparr>files := (files w)(output_path a \<mapsto> Text (csv_text rows))\<rparr>) of
           Inl err \<Rightarrow> Inl err
         | Inr w3 \<Rightarrow>
             (case print (Processed (length rows)) w3 of
                Inl err \<Rightarrow> Inl err
              | Inr w4 \<Rightarrow> print (CsvWritten (output_path a)) w4))"
    by (elim exE conjE) (rule that, assumption+)
  have "main a w =
        Inr (w\<lparr>files := (files w)(output_path a \<mapsto> Text (csv_text rows)),
               stdout := stdout w @ [XlsxMissing, Processed (length rows),
                                      CsvWritten (output_path a)]\<rparr>)"
    unfolding run using assms(7-9) by (simp add: print_def len)
  with rows x show ?thesis
    by (intro exI [of _ rows] conjI)
qed

theorem xlsx_missing_recovered_witness:
  "files demo_world (input_path demo_args) = Some (Text (lit ''j.smith@corp.com'' @ [10]))
   \<and> list_all encodable (org_keywords_of (org demo_args))
   \<and> output_path demo_args \<notin> unwritable demo_world
   \<and> xlsx demo_args = Some (lit ''out.xlsx'') \<and> lit ''out.xlsx'' \<noteq> []
   \<and> \<not> openpyxl demo_world
   \<and> stdout_accepts demo_world (message_text XlsxMissing)
   \<and> stdout_accepts demo_world (message_text (Processed
        (length (iter_emails (file_lines (translate_newlines (lit ''j.smith@corp.com'' @ [10])))))))
   \<and> stdout_accepts demo_world (message_text (CsvWritten (output_path demo_args)))
   \<and> (\<exists>rows.
      pipeline (org_keywords_of (org demo_args))
        (file_lines (translate_newlines (lit ''j.smith@corp.com'' @ [10]))) = Inr rows
    \<and> try_write_xlsx rows (lit ''out.xlsx'')
         (demo_world\<lparr>files := (files demo_world)(output_path demo_args \<mapsto> Text (csv_text rows))\<rparr>) =
        Inr (False,
         demo_world\<lparr>files := (files demo_world)(output_path demo_args \<mapsto> Text (csv_text rows))\<rparr>)
    \<and> main demo_args demo_world =
        Inr (demo_world\<lparr>files := (files demo_world)(output_path demo_args \<mapsto> Text (csv_text rows)),
               stdout := stdout demo_world @ [XlsxMissing, Processed (length rows),
                                      CsvWritten (output_path demo_args)]\<rparr>))"
proof -
  have h1: "files demo_world (input_path demo_args) = Some (Text (lit ''j.smith@corp.com'' @ [10]))"
    by (simp add: demo_world_def demo_args_def)
  have h2: "list_all encodable (org_keywords_of (org demo_args))"
    by (simp add: demo_args_def org_keywords_of_def DEFAULT_ORG_KEYWORDS_def)
  have h3: "output_path demo_args \<notin> unwritable demo_world"
    by (simp add: demo_world_def)
  have h4: "xlsx demo_args = Some (lit ''out.xlsx'')"
    by (simp add: demo_args_def)
  have h5: "lit ''out.xlsx'' \<noteq> []"
    by (simp add: lit_def)
  have h6: "\<not> openpyxl demo_world"
    by (simp add: demo_world_def)
  have acc: "stdout_accepts demo_world = encodable"
    by (simp add: demo_world_def)
  have h7: "stdout_accepts demo_world (message_text XlsxMissing)"
    unfolding acc by (rule encodable_fixed_messages)
  have h8: "stdout_accepts demo_world (message_text (Processed
        (length (iter_emails (file_lines (translate_newlines (lit ''j.smith@corp.com'' @ [10])))))))"
    unfolding acc by (rule encodable_fixed_messages)
  have h9: "stdout_accepts demo_world (message_text (CsvWritten (output_path demo_args)))"
    unfolding acc by (simp add: demo_args_def)
  from h1 h2 h3 h4 h5 h6 h7 h8 h9 xlsx_missing_recovered [OF h1 h2 h3 h4 h5 h6 h7 h8 h9]
  show ?thesis by (intro conjI)
qed

text \<open>
  C9 as stated, with the run always reaching its end, fails: with a strict UTF-8
  standard output and a writable CSV path that holds the lone surrogate U+DCFF, the CSV
  is written, the spreadsheet attempt fails quietly, and the last \<open>print\<close>, of the CSV
  path, raises \<open>UnicodeEncodeError\<close>.
\<close>

theorem surrogate_output_path_raises:
  "files demo_world (input_path surrogate_args) = Some (Text (lit ''j.smith@corp.com'' @ [10]))
   \<and> output_path surrogate_args \<notin> unwritable demo_world
   \<and> xlsx surrogate_args = Some (lit ''out.xlsx'')
   \<and> \<not> openpyxl demo_world
   \<and> main surrogate_args demo_world = Inl UnicodeEncodeError"
proof -
  have h1: "files demo_world (input_path surrogate_args) = Some (Text (lit ''j.smith@corp.com'' @ [10]))"
    by (simp add: demo_world_def surrogate_args_def)
  have h2: "list_all encodable (org_keywords_of (org surrogate_args))"
    by (simp add: surrogate_args_def org_keywords_of_def DEFAULT_ORG_KEYWORDS_def)
  have h3: "output_path surrogate_args \<notin> unwritable demo_world"
    by (simp add: demo_world_def)
  have h4: "xlsx surrogate_args = Some (lit ''out.xlsx'')"
    by (simp add: surrogate_args_def)
  have h5: "lit ''out.xlsx'' \<noteq> []"
    by (simp add: lit_def)
  have h6: "\<not> openpyxl demo_world"
    by (simp add: demo_world_def)
  have acc: "stdout_accepts demo_world = encodable"
    by (simp add: demo_world_def)
  have bad: "\<not> encodable (message_text (CsvWritten (output_path surrogate_args)))"
    by (simp add: surrogate_args_def)
  from main_xlsx_missing [OF h1 h2 h3 h4 h5 h6] obtain rows where
    run: "main surrogate_args demo_world =
        (case print XlsxMissing (demo_world\<lparr>files := (files demo_world)(output_path surrogate_args \<mapsto> Text (csv_text rows))\<rparr>) of
           Inl err \<Rightarrow> Inl err
         | Inr w3 \<Rightarrow>
             (case print (Processed (length rows)) w3 of
                Inl err \<Rightarrow> Inl err
              | Inr w4 \<Rightarrow> print (CsvWritten (output_path surrogate_args)) w4))"
    by (elim exE conjE) (rule that, assumption+)
  have "main surrogate_args demo_world = Inl UnicodeEncodeError"
    unfolding run using bad
    by (simp add: print_def acc encodable_fixed_messages)
  with h1 h3 h4 h6 show ?thesis by (intro conjI)
qed

end
